theory Spec2Isabelle
  imports Complex_Main "HOL-Library.Log_Nat"
begin

section \<open>JavaScript numbers\<close>

text \<open>
  The values of the JavaScript type \<open>number\<close>: the IEEE 754 binary64 values. A finite
  double is modelled by the rational it denotes; \<open>+\<close>, \<open>*\<close> and \<open>/\<close> compute the exact
  result and round it to the nearest double, a tie going to the even significand, as
  ECMAScript prescribes. The sign of zero is not modelled: \<open>100 / 0\<close> is \<open>+Infinity\<close>, as
  it is for the \<open>+0\<close> that the sums of the program give (they start from \<open>+0\<close>). Division
  never throws in JavaScript: a zero divisor gives an infinity or \<open>NaN\<close>, and these
  propagate as IEEE 754 says.
\<close>

datatype number = Fin rat | PosInf | NegInf | NaN

text \<open>Powers of two with an integer exponent.\<close>

definition pow2 :: "int \<Rightarrow> rat" where
  "pow2 k = (if 0 \<le> k then 2 ^ nat k else 1 / 2 ^ nat (- k))"

text \<open>
  The binary exponent of a positive rational: the \<open>e\<close> with \<open>2^e \<le> x < 2^(e+1)\<close>, read off
  the bit length of the integer part of \<open>x\<close> or of \<open>1 / x\<close>.
\<close>

definition ilog2 :: "rat \<Rightarrow> int" where
  "ilog2 x = (if 1 \<le> x then bitlen \<lfloor>x\<rfloor> - 1 else - bitlen (\<lceil>1 / x\<rceil> - 1))"

text \<open>The nearest integer, \<open>f\<close> being the floor of \<open>q\<close>; a tie goes to the even neighbour.\<close>

definition tie_even :: "rat \<Rightarrow> int \<Rightarrow> int" where
  "tie_even q f =
     (if q - of_int f < 1 / 2 then f
      else if 1 / 2 < q - of_int f then f + 1
      else if even f then f else f + 1)"

definition round_half_even :: "rat \<Rightarrow> int" where
  "round_half_even q = tie_even q \<lfloor>q\<rfloor>"

text \<open>
  The distance between neighbouring doubles around \<open>x\<close>: a significand has 53 bits, and
  below \<open>2^-1022\<close> the doubles are subnormal and keep the distance \<open>2^-1074\<close>.
\<close>

definition ulp :: "rat \<Rightarrow> rat" where
  "ulp x = pow2 (max (ilog2 \<bar>x\<bar>) (- 1022) - 52)"

text \<open>A rounded value from \<open>2^1024\<close> on is an infinity with the sign of the exact value.\<close>

definition overflow :: "rat \<Rightarrow> rat \<Rightarrow> number" where
  "overflow x y =
     (if pow2 1024 \<le> \<bar>y\<bar> then (if 0 < x then PosInf else NegInf) else Fin y)"

text \<open>The double nearest to a rational: what every arithmetic operation delivers.\<close>

definition fl :: "rat \<Rightarrow> number" where
  "fl x =
     (if x = 0 then Fin 0
      else overflow x (of_int (round_half_even (x / ulp x)) * ulp x))"

fun js_add :: "number \<Rightarrow> number \<Rightarrow> number" where
  "js_add (Fin a) (Fin b) = fl (a + b)"
| "js_add NaN _ = NaN"
| "js_add _ NaN = NaN"
| "js_add PosInf NegInf = NaN"
| "js_add NegInf PosInf = NaN"
| "js_add PosInf _ = PosInf"
| "js_add _ PosInf = PosInf"
| "js_add NegInf _ = NegInf"
| "js_add _ NegInf = NegInf"

fun js_neg :: "number \<Rightarrow> number" where
  "js_neg (Fin a) = Fin (- a)"
| "js_neg PosInf = NegInf"
| "js_neg NegInf = PosInf"
| "js_neg NaN = NaN"

definition js_sub :: "number \<Rightarrow> number \<Rightarrow> number" where
  "js_sub a b = js_add a (js_neg b)"

text \<open>The sign of a number: \<open>None\<close> for \<open>NaN\<close>, otherwise \<open>-1\<close>, \<open>0\<close> or \<open>1\<close>.\<close>

fun js_sign :: "number \<Rightarrow> int option" where
  "js_sign (Fin a) = Some (sgn \<lfloor>sgn a\<rfloor>)"
| "js_sign PosInf = Some 1"
| "js_sign NegInf = Some (- 1)"
| "js_sign NaN = None"

definition inf_of_sign :: "int \<Rightarrow> number" where
  "inf_of_sign z = (if z = 0 then NaN else if 0 < z then PosInf else NegInf)"

fun js_mul :: "number \<Rightarrow> number \<Rightarrow> number" where
  "js_mul (Fin a) (Fin b) = fl (a * b)"
| "js_mul a b =
     (case (js_sign a, js_sign b) of
        (Some x, Some y) \<Rightarrow> inf_of_sign (x * y)
      | _ \<Rightarrow> NaN)"

fun js_div :: "number \<Rightarrow> number \<Rightarrow> number" where
  "js_div (Fin a) (Fin b) =
     (if b = 0 then inf_of_sign \<lfloor>sgn a\<rfloor> else fl (a / b))"
| "js_div (Fin a) PosInf = Fin 0"
| "js_div (Fin a) NegInf = Fin 0"
| "js_div PosInf (Fin b) = (if 0 \<le> b then PosInf else NegInf)"
| "js_div NegInf (Fin b) = (if 0 \<le> b then NegInf else PosInf)"
| "js_div PosInf PosInf = NaN"
| "js_div PosInf NegInf = NaN"
| "js_div NegInf PosInf = NaN"
| "js_div NegInf NegInf = NaN"
| "js_div NaN _ = NaN"
| "js_div _ NaN = NaN"

text \<open>
  \<open>Math.round\<close>: the nearest integer, a tie going towards \<open>+Infinity\<close>. The result is a
  double whenever the argument is one: from \<open>2^52\<close> on every double is an integer.
\<close>

fun Math_round :: "number \<Rightarrow> number" where
  "Math_round (Fin a) = Fin (of_int \<lfloor>a + 1 / 2\<rfloor>)"
| "Math_round x = x"

text \<open>The operator \<open>!==\<close> on numbers: \<open>NaN\<close> differs from everything, itself included.\<close>

definition js_neq :: "number \<Rightarrow> number \<Rightarrow> bool" where
  "js_neq a b = (a = NaN \<or> b = NaN \<or> a \<noteq> b)"

text \<open>The operator \<open><=\<close> on numbers: false as soon as one side is \<open>NaN\<close>.\<close>

fun js_le :: "number \<Rightarrow> number \<Rightarrow> bool" where
  "js_le (Fin a) (Fin b) = (a \<le> b)"
| "js_le NaN _ = False"
| "js_le _ NaN = False"
| "js_le NegInf _ = True"
| "js_le _ PosInf = True"
| "js_le _ _ = False"

text \<open>\<open>Number.isInteger\<close>.\<close>

definition is_integer :: "number \<Rightarrow> bool" where
  "is_integer x = (case x of Fin a \<Rightarrow> a = of_int \<lfloor>a\<rfloor> | _ \<Rightarrow> False)"

section \<open>The priority normalizer (\<open>handleSliderChange\<close>)\<close>

record PriorityValues =
  textual :: number
  graphical :: number
  symbolical :: number

datatype key = Textual | Graphical | Symbolical

datatype error = DivideByZero

fun get_key :: "PriorityValues \<Rightarrow> key \<Rightarrow> number" where
  "get_key p Textual = textual p"
| "get_key p Graphical = graphical p"
| "get_key p Symbolical = symbolical p"

fun set_key :: "PriorityValues \<Rightarrow> key \<Rightarrow> number \<Rightarrow> PriorityValues" where
  "set_key p Textual v = p\<lparr>textual := v\<rparr>"
| "set_key p Graphical v = p\<lparr>graphical := v\<rparr>"
| "set_key p Symbolical v = p\<lparr>symbolical := v\<rparr>"

text \<open>
  \<open>Object.values(p).reduce((sum, val) => sum + val, 0)\<close>: the keys are visited in the
  order \<open>textual\<close>, \<open>graphical\<close>, \<open>symbolical\<close> in which the object was created.
\<close>

definition total_of :: "PriorityValues \<Rightarrow> number" where
  "total_of p = foldl js_add (Fin 0) [textual p, graphical p, symbolical p]"

text \<open>The \<open>forEach\<close> over \<open>Object.keys\<close> that scales and rounds every value.\<close>

definition scale_all :: "number \<Rightarrow> PriorityValues \<Rightarrow> PriorityValues" where
  "scale_all factor p =
     foldl (\<lambda>q k. set_key q k (Math_round (js_mul (get_key q k) factor))) p
       [Textual, Graphical, Symbolical]"

text \<open>
  The handler, with the state \<open>priorities\<close> it closes over as its first argument; the
  result is the object it hands to \<open>setPriorities\<close> and \<open>onChange\<close>. No statement of the
  handler throws, so the result is always an \<open>Inr\<close>; the sum type is there so that a
  failure can be spoken about.
\<close>

definition handleSliderChange :: "PriorityValues \<Rightarrow> key \<Rightarrow> number \<Rightarrow> error + PriorityValues" where
  "handleSliderChange priorities ty v =
     (let newPriorities = set_key priorities ty v;
          total = total_of newPriorities
      in if js_neq total (Fin 100) then
           (let factor = js_div (Fin 100) total;
                scaled = scale_all factor newPriorities;
                finalTotal = total_of scaled
            in if js_neq finalTotal (Fin 100) then
                 (let diff = js_sub (Fin 100) finalTotal
                  in Inr (set_key scaled ty (js_add (get_key scaled ty) diff)))
               else Inr scaled)
         else Inr newPriorities)"

text \<open>The state the component starts in.\<close>

definition initial_priorities :: PriorityValues where
  "initial_priorities = \<lparr>textual = Fin 33, graphical = Fin 33, symbolical = Fin 34\<rparr>"

text \<open>A split of integers, as the sliders and the handler's own results supply them.\<close>

definition int_split :: "int \<Rightarrow> int \<Rightarrow> int \<Rightarrow> PriorityValues" where
  "int_split t g s =
     \<lparr>textual = Fin (of_int t), graphical = Fin (of_int g), symbolical = Fin (of_int s)\<rparr>"

section \<open>JavaScript strings\<close>

text \<open>
  A JavaScript string is a sequence of UTF-16 code units; \<open>str\<close> turns an ASCII literal
  into one.
\<close>

type_synonym jsstring = "nat list"

definition str :: "string \<Rightarrow> jsstring" where
  "str s = map of_char s"

text \<open>
  The code units that \<open>String.prototype.trim\<close> strips and that \<open>\s\<close> matches: the white
  space and line terminator characters of ECMAScript.
\<close>

definition is_space :: "nat \<Rightarrow> bool" where
  "is_space c =
     (c \<in> {9, 10, 11, 12, 13, 32, 160, 5760, 8232, 8233, 8239, 8287, 12288, 65279}
      \<or> (8192 \<le> c \<and> c \<le> 8202))"

definition is_digit :: "nat \<Rightarrow> bool" where
  "is_digit c = (48 \<le> c \<and> c \<le> 57)"

definition trim :: "jsstring \<Rightarrow> jsstring" where
  "trim s = rev (dropWhile is_space (rev (dropWhile is_space s)))"

text \<open>\<open>s.substring(a, b)\<close> for \<open>a \<le> b\<close>, the only way the program calls it.\<close>

definition substring :: "jsstring \<Rightarrow> nat \<Rightarrow> nat \<Rightarrow> jsstring" where
  "substring s a b = take (b - a) (drop a s)"

text \<open>
  \<open>s.split(/[...]/)\<close> with a separator that is one character of a class: the pieces
  between the separators, empty pieces included; never an empty array.
\<close>

fun split_on :: "(nat \<Rightarrow> bool) \<Rightarrow> jsstring \<Rightarrow> jsstring list" where
  "split_on p [] = [[]]"
| "split_on p (c # cs) =
     (if p c then [] # split_on p cs
      else (case split_on p cs of [] \<Rightarrow> [[c]] | x # xs \<Rightarrow> (c # x) # xs))"

text \<open>\<open>s.replace(pat, rep)\<close> with a string pattern: the first occurrence only.\<close>

fun replace_first :: "jsstring \<Rightarrow> jsstring \<Rightarrow> jsstring \<Rightarrow> jsstring" where
  "replace_first pat rep [] = (if pat = [] then rep else [])"
| "replace_first pat rep (c # cs) =
     (if take (length pat) (c # cs) = pat then rep @ drop (length pat) (c # cs)
      else c # replace_first pat rep cs)"

text \<open>
  \<open>parseFloat\<close> on the strings the first capture group of the metric patterns can hold
  (digits, then optionally a dot and digits), and on a string that starts with no digit,
  where it is \<open>NaN\<close>. The value is the double nearest to the decimal.
\<close>

definition digits_value :: "jsstring \<Rightarrow> nat" where
  "digits_value ds = foldl (\<lambda>n d. 10 * n + (d - 48)) 0 ds"

definition parseFloat :: "jsstring \<Rightarrow> number" where
  "parseFloat s =
     (let ip = takeWhile is_digit s; r = drop (length ip) s
      in if ip = [] then NaN
         else (case r of
                 d # fs \<Rightarrow>
                   if d = 46 then
                     (let fp = takeWhile is_digit fs
                      in fl (of_nat (digits_value ip) + of_nat (digits_value fp) / 10 ^ length fp))
                   else fl (of_nat (digits_value ip))
               | [] \<Rightarrow> fl (of_nat (digits_value ip))))"

text \<open>
  \<open>c.toUpperCase()\<close> for a string \<open>c\<close> of one code unit. ASCII is mapped here; the Unicode
  table for the other code units is the parameter \<open>uc\<close>.
\<close>

definition toUpperCase1 :: "(nat \<Rightarrow> jsstring) \<Rightarrow> nat \<Rightarrow> jsstring" where
  "toUpperCase1 uc c = (if 97 \<le> c \<and> c \<le> 122 then [c - 32] else if c < 128 then [c] else uc c)"

text \<open>
  A table for the examples, which hold ASCII only: a code unit beyond ASCII is its own
  upper case.
\<close>

definition no_case :: "nat \<Rightarrow> jsstring" where
  "no_case c = [c]"

text \<open>\<open>s.charAt(0).toUpperCase() + s.slice(1)\<close>.\<close>

definition capitalize :: "(nat \<Rightarrow> jsstring) \<Rightarrow> jsstring \<Rightarrow> jsstring" where
  "capitalize uc s = (case s of [] \<Rightarrow> [] | c # cs \<Rightarrow> toUpperCase1 uc c @ cs)"

section \<open>Regular expressions\<close>

text \<open>
  The constructs the seven patterns of the extractor use. All seven carry the flag \<open>i\<close>, so
  a literal is compared after canonicalisation; every pattern has exactly one capturing
  group, \<open>Group\<close>. \<open>r+\<close> is \<open>Seq r (Star r)\<close> and \<open>r+?\<close> is \<open>Seq r (LazyStar r)\<close>.
\<close>

datatype regex =
    Eps
  | Lit nat
  | Cls "nat \<Rightarrow> bool"
  | Seq regex regex
  | Alt regex regex
  | Opt regex
  | Star regex
  | LazyStar regex
  | Group regex
  | Ahead regex
  | Eos

definition Plus :: "regex \<Rightarrow> regex" where
  "Plus r = Seq r (Star r)"

definition LazyPlus :: "regex \<Rightarrow> regex" where
  "LazyPlus r = Seq r (LazyStar r)"

fun lits :: "string \<Rightarrow> regex" where
  "lits [] = Eps"
| "lits (c # cs) = Seq (Lit (of_char c)) (lits cs)"

text \<open>
  \<open>Canonicalize\<close> of ECMAScript for a pattern without the flag \<open>u\<close>: the upper case of a
  code unit, unless that is not one code unit or leaves ASCII. It is written out for what
  a comparison with a literal of the seven patterns needs: the ASCII letters, and the three
  code units whose upper case is the capital letter mu (U+039C), namely mu (U+03BC), the
  micro sign (U+00B5) and the capital itself. No other code unit has the canonical form of
  one of the patterns' literals.
\<close>

definition canonicalize :: "nat \<Rightarrow> nat" where
  "canonicalize c =
     (if 97 \<le> c \<and> c \<le> 122 then c - 32 else if c = 956 \<or> c = 181 then 924 else c)"

text \<open>
  The backtracking matcher. A state is the position reached and the span of the capturing
  group; \<open>ms r s st\<close> lists the states in which \<open>r\<close> can end when started in \<open>st\<close>, in the
  order in which backtracking tries them: the head of the list is the match. A quantifier
  drops an iteration that consumed nothing, as ECMAScript does.
\<close>

type_synonym mstate = "nat \<times> (nat \<times> nat) option"

function ms :: "regex \<Rightarrow> jsstring \<Rightarrow> mstate \<Rightarrow> mstate list" where
  "ms Eps s st = [st]"
| "ms (Lit c) s (i, k) =
     (if i < length s \<and> canonicalize (s ! i) = canonicalize c then [(Suc i, k)] else [])"
| "ms (Cls p) s (i, k) = (if i < length s \<and> p (s ! i) then [(Suc i, k)] else [])"
| "ms (Seq a b) s st = concat (map (ms b s) (ms a s st))"
| "ms (Alt a b) s st = ms a s st @ ms b s st"
| "ms (Opt a) s (i, k) = filter (\<lambda>(j, k'). i < j) (ms a s (i, k)) @ [(i, k)]"
| "ms (Star a) s (i, k) =
     concat (map (\<lambda>(j, k'). if i < j \<and> j \<le> length s then ms (Star a) s (j, k') else [])
                 (ms a s (i, k))) @ [(i, k)]"
| "ms (LazyStar a) s (i, k) =
     (i, k) # concat (map (\<lambda>(j, k'). if i < j \<and> j \<le> length s then ms (LazyStar a) s (j, k') else [])
                          (ms a s (i, k)))"
| "ms (Group a) s (i, k) = map (\<lambda>(j, k'). (j, Some (i, j))) (ms a s (i, k))"
| "ms (Ahead a) s (i, k) = (case ms a s (i, k) of [] \<Rightarrow> [] | (j, k') # _ \<Rightarrow> [(i, k')])"
| "ms Eos s (i, k) = (if i = length s then [(i, k)] else [])"
  by pat_completeness auto
termination
  by (relation "measures [\<lambda>(r, s, st). size r, \<lambda>(r, s, (i, k)). length s - i]") auto

declare ms.simps [simp del]

text \<open>
  The match object: \<open>index\<close>, \<open>match[0]\<close>, \<open>match[1]\<close> (absent when the group took no part),
  and the position after the match, which a global pattern stores in \<open>lastIndex\<close>.
\<close>

record RegExpMatch =
  index :: nat
  whole :: jsstring
  group1 :: "jsstring option"
  lastIndex :: nat

text \<open>
  \<open>regex.exec(s)\<close> started at position \<open>i\<close>: the first position from \<open>i\<close> on at which the
  pattern matches, or \<open>null\<close>. \<open>s.match(regex)\<close> with a pattern that is not global is
  \<open>regex_exec regex s 0\<close>.
\<close>

function regex_exec :: "regex \<Rightarrow> jsstring \<Rightarrow> nat \<Rightarrow> RegExpMatch option" where
  "regex_exec r s i =
     (if length s < i then None
      else (case ms r s (i, None) of
              [] \<Rightarrow> regex_exec r s (Suc i)
            | (e, c) # _ \<Rightarrow>
                Some \<lparr>index = i, whole = substring s i e,
                      group1 = map_option (\<lambda>(a, b). substring s a b) c, lastIndex = e\<rparr>))"
  by pat_completeness auto
termination
  by (relation "measure (\<lambda>(r, s, i). Suc (length s) - i)") auto

declare regex_exec.simps [simp del]

definition String_match :: "jsstring \<Rightarrow> regex \<Rightarrow> RegExpMatch option" where
  "String_match s r = regex_exec r s 0"

section \<open>The heuristic text extractor\<close>

subsection \<open>The patterns\<close>

text \<open>
  The code units the patterns name: 10 is the newline, 35 is \<open>#\<close>, 37 is \<open>%\<close>, 44 the
  comma, 46 the dot, 58 the colon, 59 the semicolon, 115 is \<open>s\<close> and 956 is the letter mu.
\<close>

text \<open>\<open>(\d+(?:\.\d+)?)\<close>, the head of the three metric patterns.\<close>

definition number_re :: regex where
  "number_re = Group (Seq (Plus (Cls is_digit)) (Opt (Seq (Lit 46) (Plus (Cls is_digit)))))"

text \<open>\<open>/(\d+(?:\.\d+)?)\s*(?:mg|g|ml|L)/gi\<close>\<close>

definition measurement_re :: regex where
  "measurement_re =
     Seq number_re (Seq (Star (Cls is_space))
       (Alt (lits ''mg'') (Alt (lits ''g'') (Alt (lits ''ml'') (lits ''L'')))))"

text \<open>\<open>/(\d+(?:\.\d+)?)\s*%/gi\<close>\<close>

definition percentage_re :: regex where
  "percentage_re = Seq number_re (Seq (Star (Cls is_space)) (Lit 37))"

text \<open>\<open>/(\d+(?:\.\d+)?)\s*(?:U\/L|IU\/L|\<mu>mol\/L|mg\/dL)/gi\<close>, the mu being U+03BC.\<close>

definition lab_value_re :: regex where
  "lab_value_re =
     Seq number_re (Seq (Star (Cls is_space))
       (Alt (lits ''U/L'') (Alt (lits ''IU/L'')
         (Alt (Seq (Lit 956) (lits ''mol/L'')) (lits ''mg/dL'')))))"

text \<open>\<open>/(?:Title|Name)?:?\s*([^\n]+)/i\<close>\<close>

definition title_re :: regex where
  "title_re =
     Seq (Opt (Alt (lits ''Title'') (lits ''Name'')))
       (Seq (Opt (Lit 58)) (Seq (Star (Cls is_space)) (Group (Plus (Cls (\<lambda>c. c \<noteq> 10))))))"

text \<open>\<open>/(?:study type|design):?\s*([^\n.,]+)/i\<close>\<close>

definition type_re :: regex where
  "type_re =
     Seq (Alt (lits ''study type'') (lits ''design''))
       (Seq (Opt (Lit 58)) (Seq (Star (Cls is_space))
         (Group (Plus (Cls (\<lambda>c. c \<noteq> 10 \<and> c \<noteq> 46 \<and> c \<noteq> 44))))))"

text \<open>The tail \<open>:?\s*([^#]+?)(?=\n|$)\<close> that the two section patterns share.\<close>

definition section_tail :: regex where
  "section_tail =
     Seq (Opt (Lit 58)) (Seq (Star (Cls is_space))
       (Seq (Group (LazyPlus (Cls (\<lambda>c. c \<noteq> 35)))) (Ahead (Alt (Lit 10) Eos))))"

text \<open>\<open>/(?:Methods?|Protocol):?\s*([^#]+?)(?=\n|$)/i\<close>\<close>

definition methods_re :: regex where
  "methods_re =
     Seq (Alt (Seq (lits ''Method'') (Opt (Lit 115))) (lits ''Protocol'')) section_tail"

text \<open>\<open>/(?:Results?|Findings?):?\s*([^#]+?)(?=\n|$)/i\<close>\<close>

definition findings_re :: regex where
  "findings_re =
     Seq (Alt (Seq (lits ''Result'') (Opt (Lit 115))) (Seq (lits ''Finding'') (Opt (Lit 115))))
       section_tail"

subsection \<open>\<open>extractMetrics\<close>\<close>

record Metric =
  label :: jsstring
  "value" :: number
  unit :: jsstring

text \<open>
  The body of the \<open>while\<close> loop: the metric pushed for one match. \<open>match[1]\<close> is always
  present with these patterns; were it \<open>undefined\<close>, JavaScript would convert it to the
  string \<open>"undefined"\<close> in both calls.
\<close>

definition metric_of :: "(nat \<Rightarrow> jsstring) \<Rightarrow> jsstring \<Rightarrow> jsstring \<Rightarrow> RegExpMatch \<Rightarrow> Metric" where
  "metric_of uc text ty m =
     (let m1 = (case group1 m of Some g \<Rightarrow> g | None \<Rightarrow> str ''undefined'');
          v = parseFloat m1;
          u = trim (replace_first m1 [] (whole m));
          pieces = split_on (\<lambda>c. c \<in> {46, 44, 59, 58}) (substring text (index m - 50) (index m));
          popped = (case pieces of [] \<Rightarrow> None | _ \<Rightarrow> Some (last pieces));
          context = (case popped of
                       None \<Rightarrow> ty
                     | Some p \<Rightarrow> if trim p = [] then ty else trim p)
      in \<lparr>label = capitalize uc context, value = v, unit = u\<rparr>)"

text \<open>
  \<open>while ((match = regex.exec(text)) !== null) { ... metrics.push(...) }\<close> for one
  pattern, from the \<open>lastIndex\<close> the pattern holds; \<open>None\<close> is a loop that never ends.
\<close>

partial_function (option) exec_loop ::
  "(nat \<Rightarrow> jsstring) \<Rightarrow> jsstring \<Rightarrow> regex \<Rightarrow> jsstring \<Rightarrow> nat \<Rightarrow> Metric list \<Rightarrow> Metric list option"
where
  "exec_loop uc text regex ty i acc =
     (case regex_exec regex text i of
        None \<Rightarrow> Some acc
      | Some m \<Rightarrow> exec_loop uc text regex ty (lastIndex m) (acc @ [metric_of uc text ty m]))"

declare exec_loop.simps [code]

definition patterns :: "(regex \<times> jsstring) list" where
  "patterns =
     [(measurement_re, str ''measurement''),
      (percentage_re, str ''percentage''),
      (lab_value_re, str ''lab_value'')]"

definition extractMetrics :: "(nat \<Rightarrow> jsstring) \<Rightarrow> jsstring \<Rightarrow> Metric list option" where
  "extractMetrics uc text =
     foldl (\<lambda>acc (regex, ty). Option.bind acc (exec_loop uc text regex ty 0)) (Some []) patterns"

subsection \<open>\<open>processInitialData\<close>\<close>

text \<open>\<open>m?.[1]?.trim() || dflt\<close>\<close>

definition capture_or :: "RegExpMatch option \<Rightarrow> jsstring \<Rightarrow> jsstring" where
  "capture_or m dflt =
     (case m of
        None \<Rightarrow> dflt
      | Some r \<Rightarrow> (case group1 r of
                     None \<Rightarrow> dflt
                   | Some g \<Rightarrow> if trim g = [] then dflt else trim g))"

text \<open>\<open>m?.[1]?.split(/[.;]/).map(s => s.trim()).filter(s => s && s.length > 10) || []\<close>\<close>

definition sentences_of :: "RegExpMatch option \<Rightarrow> jsstring list" where
  "sentences_of m =
     (case m of
        None \<Rightarrow> []
      | Some r \<Rightarrow> (case group1 r of
                     None \<Rightarrow> []
                   | Some g \<Rightarrow>
                       filter (\<lambda>s. s \<noteq> [] \<and> 10 < length s)
                         (map trim (split_on (\<lambda>c. c \<in> {46, 59}) g))))"

record ProcessedData =
  title :: jsstring
  type :: jsstring
  metrics :: "Metric list"
  methods :: "jsstring list"
  findings :: "jsstring list"

definition processInitialData :: "(nat \<Rightarrow> jsstring) \<Rightarrow> jsstring \<Rightarrow> ProcessedData option" where
  "processInitialData uc text =
     (let titleMatch = String_match text title_re;
          title' = capture_or titleMatch (str ''Research Study'');
          typeMatch = String_match text type_re;
          type' = capture_or typeMatch (str ''Clinical Study'');
          methodsMatch = String_match text methods_re;
          methods' = sentences_of methodsMatch;
          findingsMatch = String_match text findings_re;
          findings' = sentences_of findingsMatch
      in map_option
           (\<lambda>metrics'. \<lparr>title = title', type = type', metrics = metrics',
                  methods = methods', findings = findings'\<rparr>)
           (extractMetrics uc text))"

section \<open>Notions the properties are stated with\<close>

text \<open>A pattern that cannot match the empty string, by its shape.\<close>

fun consuming :: "regex \<Rightarrow> bool" where
  "consuming (Lit c) = True"
| "consuming (Cls p) = True"
| "consuming (Seq a b) = (consuming a \<or> consuming b)"
| "consuming (Alt a b) = (consuming a \<and> consuming b)"
| "consuming (Group a) = consuming a"
| "consuming _ = False"

text \<open>
  The matches of a pattern in a text as the specification speaks of them: from left to
  right, each search starting where the match before it ended.
\<close>

function matches_in_order :: "regex \<Rightarrow> jsstring \<Rightarrow> nat \<Rightarrow> RegExpMatch list" where
  "matches_in_order r s i =
     (case regex_exec r s i of
        None \<Rightarrow> []
      | Some m \<Rightarrow>
          if i < lastIndex m \<and> lastIndex m \<le> length s
          then m # matches_in_order r s (lastIndex m) else [m])"
  by pat_completeness auto
termination
  by (relation "measure (\<lambda>(r, s, i). length s - i)") auto

declare matches_in_order.simps [simp del]

text \<open>The length of the longest run of code units of a class that starts at a position.\<close>

definition run :: "(nat \<Rightarrow> bool) \<Rightarrow> jsstring \<Rightarrow> nat \<Rightarrow> nat" where
  "run p s i = length (takeWhile p (drop i s))"

text \<open>A label stands at a position of the text, letter case aside.\<close>

definition label_at :: "jsstring \<Rightarrow> nat \<Rightarrow> string \<Rightarrow> bool" where
  "label_at s i w =
     (map canonicalize (take (length w) (drop i s)) = map canonicalize (str w))"

text \<open>
  The definitions that follow, up to \<open>first_labelled\<close>, say where the sections, the title
  and the type of a text are read, as a search written with list functions only. They are
  not taken from the program: the theorems on the extractor compare them with what the
  patterns of the program capture.
\<close>

text \<open>The first element of a list on which a partial function is defined, as its value there.\<close>

fun first_some :: "('a \<Rightarrow> 'b option) \<Rightarrow> 'a list \<Rightarrow> 'b option" where
  "first_some f [] = None"
| "first_some f (x # xs) = (case f x of None \<Rightarrow> first_some f xs | Some y \<Rightarrow> Some y)"

text \<open>
  Where the line ends that position \<open>j\<close> lies on: the position of the first newline at or
  after \<open>j\<close>, or the end of the text.
\<close>

definition line_end :: "jsstring \<Rightarrow> nat \<Rightarrow> nat" where
  "line_end s j = j + run (\<lambda>c. c \<noteq> 10) s j"

text \<open>
  The content of a section that starts at position \<open>a\<close>, as the positions of its first code
  unit and after its last: it runs from \<open>a\<close> to the end of the line that the position after
  \<open>a\<close> lies on, and there is none when \<open>a\<close> is the end of the text or a \<open>#\<close> lies in that
  stretch.
\<close>

definition content_at :: "jsstring \<Rightarrow> nat \<Rightarrow> (nat \<times> nat) option" where
  "content_at s a =
     (if a < length s \<and> 35 \<notin> set (substring s a (line_end s (Suc a)))
      then Some (a, line_end s (Suc a)) else None)"

text \<open>
  The value that starts at position \<open>a\<close>: the longest run of code units of the class \<open>p\<close>
  from \<open>a\<close> on; there is none when no code unit of the class stands at \<open>a\<close>.
\<close>

definition value_at :: "(nat \<Rightarrow> bool) \<Rightarrow> jsstring \<Rightarrow> nat \<Rightarrow> (nat \<times> nat) option" where
  "value_at p s a = (if a < length s \<and> p (s ! a) then Some (a, a + run p s a) else None)"

text \<open>
  The positions at which what a label announces may start, \<open>j\<close> being the position after
  the label, in the order in which they are tried: first with the colon skipped, if one
  stands at \<open>j\<close>, then without skipping it; each time after all the white space that
  follows, then after all but its last code unit, and so on down to none of it.
\<close>

definition starts_after :: "jsstring \<Rightarrow> nat \<Rightarrow> nat list" where
  "starts_after s j =
     concat (map (\<lambda>c. rev [c ..< Suc (c + run is_space s c)])
               ((if j < length s \<and> s ! j = 58 then [Suc j] else []) @ [j]))"

text \<open>The positions after those labels of a list that stand at position \<open>i\<close>, in the list's order.\<close>

definition label_ends :: "jsstring \<Rightarrow> string list \<Rightarrow> nat \<Rightarrow> nat list" where
  "label_ends s labels i = map (\<lambda>w. i + length w) (filter (label_at s i) labels)"

text \<open>
  What a label at position \<open>i\<close> announces: the labels that stand at \<open>i\<close> are tried in their
  order, for each the starts in theirs, and the first start at which \<open>cap\<close> finds something
  decides.
\<close>

definition labelled_at ::
  "(jsstring \<Rightarrow> nat \<Rightarrow> (nat \<times> nat) option) \<Rightarrow> jsstring \<Rightarrow> string list \<Rightarrow> nat
     \<Rightarrow> (nat \<times> nat) option" where
  "labelled_at cap s labels i =
     first_some (cap s) (concat (map (starts_after s) (label_ends s labels i)))"

text \<open>The same at the first position of the text, from the left, where there is something.\<close>

definition first_labelled ::
  "(jsstring \<Rightarrow> nat \<Rightarrow> (nat \<times> nat) option) \<Rightarrow> jsstring \<Rightarrow> string list
     \<Rightarrow> (nat \<times> nat) option" where
  "first_labelled cap s labels = first_some (labelled_at cap s labels) [0 ..< Suc (length s)]"

text \<open>The texts of the examples.\<close>

definition example_text :: jsstring where
  "example_text = str ''Results: Patients showed 45% improvement. Methods: Randomized control trial was used.''"

definition sections_text :: jsstring where
  "sections_text = str ''Protocol: Blood was drawn daily; ok. Findings: Glucose fell sharply''"

definition hash_text :: jsstring where
  "hash_text = str ''Methods: Patients in arm #A received the drug''"

definition designed_text :: jsstring where
  "designed_text = str ''We designed it''"

definition header_text :: jsstring where
  "header_text = str ''Title: Aspirin trial'' @ [10] @ str ''Design: randomized, double blind''"

definition labelled_title_text :: jsstring where
  "labelled_title_text = str ''Title: Aspirin trial''"

definition late_title_text :: jsstring where
  "late_title_text = [10] @ str ''Title: Aspirin trial''"

definition study_type_text :: jsstring where
  "study_type_text = str ''Study type: RCT''"

definition methods_text :: jsstring where
  "methods_text = str ''Methods: Randomized control trial''"

section \<open>The normalizer in closed form\<close>

text \<open>
  The value the handler's loop stores for a key that holds the integer \<open>x\<close> when the total is
  the integer \<open>T\<close>: the product with the rounded factor \<open>100 / T\<close>, rounded to a double and
  then to an integer.
\<close>

definition scaled :: "int \<Rightarrow> int \<Rightarrow> int" where
  "scaled x T =
     (case Math_round (js_mul (Fin (rat_of_int x)) (js_div (Fin 100) (Fin (rat_of_int T)))) of
        Fin r \<Rightarrow> \<lfloor>r\<rfloor> | _ \<Rightarrow> 0)"

text \<open>
  What the handler computes once the edit is stored, written on the integers \<open>t\<close>, \<open>g\<close>, \<open>s\<close>
  the three keys then hold; \<open>hsc_body\<close> below proves the two equal for integers of
  magnitude up to \<open>10^12\<close> whose total is not zero.
\<close>

definition normalized :: "key \<Rightarrow> int \<Rightarrow> int \<Rightarrow> int \<Rightarrow> PriorityValues" where
  "normalized k t g s =
     (let T = t + g + s;
          a = scaled t T;
          b = scaled g T;
          c = scaled s T
      in if T = 100 then int_split t g s
         else if a + b + c = 100 then int_split a b c
         else (case k of Textual \<Rightarrow> int_split (100 - b - c) b c
              | Graphical \<Rightarrow> int_split a (100 - a - c) c
              | Symbolical \<Rightarrow> int_split a b (100 - a - b)))"

section \<open>Properties of the rounding\<close>

text \<open>
  Two facts carry the proofs about the normalizer: an integer below \<open>2^53\<close> in magnitude is
  a double, so rounding leaves it as it is (\<open>fl_int\<close>); and rounding moves a value between
  \<open>2^-60\<close> and \<open>2^60\<close> in magnitude by at most the fraction \<open>2^-53\<close> of it (\<open>fl_err\<close>).
\<close>

lemma pow2_powi: "pow2 k = 2 powi k"
  by (simp add: pow2_def power_int_def field_simps)

lemma pow2_pos [simp]: "0 < pow2 k"
  by (simp add: pow2_powi)

lemma pow2_add: "pow2 (a + b) = pow2 a * pow2 b"
  by (simp add: pow2_powi power_int_add)

lemma pow2_less_iff: "pow2 a < pow2 b \<longleftrightarrow> a < b"
  unfolding pow2_powi
  by (metis less_irrefl linorder_less_linear numeral_One numeral_less_iff order.asym
      power_int_strict_increasing semiring_norm(76))

lemma pow2_le_iff: "pow2 a \<le> pow2 b \<longleftrightarrow> a \<le> b"
  by (metis pow2_less_iff linorder_not_less)

lemma pow2_nat: "0 \<le> k \<Longrightarrow> pow2 k = 2 ^ nat k"
  by (simp add: pow2_def)

lemma ilog2_bounds:
  assumes "0 < x"
  shows "pow2 (ilog2 x) \<le> x" "x < pow2 (ilog2 x + 1)"
proof -
  have "pow2 (ilog2 x) \<le> x \<and> x < pow2 (ilog2 x + 1)"
  proof (cases "1 \<le> x")
    case True
    define n where "n = \<lfloor>x\<rfloor>"
    have n: "0 < n" using True by (simp add: n_def)
    from bitlen_bounds[OF n] have b: "2 ^ nat (bitlen n - 1) \<le> n" "n < 2 ^ nat (bitlen n)" by auto
    have bl: "1 \<le> bitlen n"
    proof (rule ccontr)
      assume "\<not> 1 \<le> bitlen n"
      then have "nat (bitlen n) = 0" by simp
      with b(2) n show False by simp
    qed
    have e: "ilog2 x = bitlen n - 1" using True by (simp add: ilog2_def n_def)
    have "pow2 (bitlen n - 1) = rat_of_int (2 ^ nat (bitlen n - 1))" using bl by (simp add: pow2_nat)
    also have "\<dots> \<le> rat_of_int n" using b(1) by (simp only: of_int_le_iff)
    also have "\<dots> \<le> x" by (simp add: n_def)
    finally have l: "pow2 (ilog2 x) \<le> x" by (simp add: e)
    have "n + 1 \<le> 2 ^ nat (bitlen n)" using b(2) by simp
    then have "rat_of_int (n + 1) \<le> rat_of_int (2 ^ nat (bitlen n))" by (simp only: of_int_le_iff)
    moreover have "x < rat_of_int (n + 1)" unfolding n_def by linarith
    moreover have "pow2 (bitlen n) = rat_of_int (2 ^ nat (bitlen n))" using bl by (simp add: pow2_nat)
    ultimately have "x < pow2 (ilog2 x + 1)" by (simp add: e)
    with l show ?thesis ..
  next
    case False
    define m where "m = \<lceil>1 / x\<rceil>"
    have x1: "1 < 1 / x" using False assms by (simp add: field_simps)
    then have m2: "0 < m - 1" unfolding m_def by linarith
    define k where "k = bitlen (m - 1)"
    from bitlen_bounds[OF m2] have b: "2 ^ nat (k - 1) \<le> m - 1" "m - 1 < 2 ^ nat k"
      by (auto simp: k_def)
    have kl: "1 \<le> k"
    proof (rule ccontr)
      assume "\<not> 1 \<le> k"
      then have "nat k = 0" by simp
      with b(2) m2 show False by simp
    qed
    have e: "ilog2 x = - k" using False by (simp add: ilog2_def m_def k_def)
    have "1 / x \<le> rat_of_int m" by (simp add: m_def)
    also have "m \<le> 2 ^ nat k" using b(2) by simp
    then have "rat_of_int m \<le> rat_of_int (2 ^ nat k)" by (simp only: of_int_le_iff)
    finally have u: "1 / x \<le> 2 ^ nat k" by simp
    have p1: "pow2 (- k) = 1 / 2 ^ nat k" using kl by (simp add: pow2_def)
    have l: "pow2 (ilog2 x) \<le> x" unfolding e p1 using u assms by (simp add: field_simps)
    have "rat_of_int (2 ^ nat (k - 1)) \<le> rat_of_int (m - 1)" using b(1) by (simp only: of_int_le_iff)
    moreover have "rat_of_int (m - 1) < 1 / x" unfolding m_def by linarith
    ultimately have v: "2 ^ nat (k - 1) < 1 / x" by simp
    have p2: "pow2 (- k + 1) = 1 / 2 ^ nat (k - 1)"
    proof (cases "k = 1")
      case True then show ?thesis by (simp add: pow2_def)
    next
      case False
      then have "- k + 1 < 0" using kl by simp
      moreover have "nat (- (- k + 1)) = nat (k - 1)" by simp
      ultimately show ?thesis by (simp add: pow2_def)
    qed
    have "x < pow2 (ilog2 x + 1)" unfolding e p2 using v assms by (simp add: field_simps)
    with l show ?thesis ..
  qed
  then show "pow2 (ilog2 x) \<le> x" "x < pow2 (ilog2 x + 1)" by auto
qed

lemma round_half_even_err: "\<bar>of_int (round_half_even q) - q\<bar> \<le> 1 / 2"
  unfolding round_half_even_def tie_even_def by (auto simp: abs_if) linarith+

lemma round_half_even_int [simp]: "round_half_even (of_int n) = n"
  by (simp add: round_half_even_def tie_even_def)

lemma round_half_even_nonneg: "0 \<le> q \<Longrightarrow> 0 \<le> round_half_even q"
  unfolding round_half_even_def tie_even_def by auto

lemma fl_normal:
  assumes lo: "pow2 (- 1022) \<le> \<bar>x\<bar>"
  shows "fl x = (let u = pow2 (ilog2 \<bar>x\<bar> - 52); y = of_int (round_half_even (x / u)) * u
                 in if pow2 1024 \<le> \<bar>y\<bar> then (if 0 < x then PosInf else NegInf) else Fin y)"
proof -
  have x: "x \<noteq> 0"
  proof
    assume "x = 0"
    with lo have "pow2 (- 1022) \<le> 0" by simp
    with pow2_pos[of "- 1022"] show False by linarith
  qed
  then have "0 < \<bar>x\<bar>" by simp
  from ilog2_bounds(2)[OF this] lo have "pow2 (- 1022) < pow2 (ilog2 \<bar>x\<bar> + 1)" by simp
  then have "- 1022 \<le> ilog2 \<bar>x\<bar>" by (simp add: pow2_less_iff)
  then have "max (ilog2 \<bar>x\<bar>) (- 1022) = ilog2 \<bar>x\<bar>" by simp
  then show ?thesis using x by (simp add: fl_def ulp_def overflow_def Let_def)
qed

lemma fl_err:
  assumes lo: "1 / 2 ^ 60 \<le> \<bar>x\<bar>" and hi: "\<bar>x\<bar> \<le> 2 ^ 60"
  shows "\<exists>y. fl x = Fin y \<and> \<bar>y - x\<bar> \<le> \<bar>x\<bar> / 2 ^ 53 \<and> (0 \<le> x \<longrightarrow> 0 \<le> y)"
proof -
  define e where "e = ilog2 \<bar>x\<bar>"
  define u where "u = pow2 (e - 52)"
  define n where "n = round_half_even (x / u)"
  define y where "y = rat_of_int n * u"
  have p60: "pow2 (- 60) = 1 / 2 ^ 60" by (simp add: pow2_def)
  have "pow2 (- 1022) \<le> pow2 (- 60)" by (simp add: pow2_le_iff)
  with lo have lo': "pow2 (- 1022) \<le> \<bar>x\<bar>" by (simp add: p60)
  have xp: "0 < \<bar>x\<bar>" using lo' pow2_pos[of "- 1022"] by linarith
  have eb: "pow2 e \<le> \<bar>x\<bar>" unfolding e_def by (rule ilog2_bounds(1)[OF xp])
  have u0: "0 < u" by (simp add: u_def)
  have "u = pow2 e * pow2 (- 52)" unfolding u_def using pow2_add[of e "- 52"] by simp
  also have "pow2 (- 52) = 1 / 2 ^ 52" by (simp add: pow2_def)
  finally have u2: "u / 2 = pow2 e / 2 ^ 53" by simp
  have "y - x = (rat_of_int n - x / u) * u" using u0 by (simp add: y_def field_simps)
  then have "\<bar>y - x\<bar> = \<bar>rat_of_int n - x / u\<bar> * u" using u0 by (simp add: abs_mult)
  also have "\<dots> \<le> (1 / 2) * u"
    using round_half_even_err[of "x / u"] u0 unfolding n_def by (intro mult_right_mono) simp_all
  also have "\<dots> = pow2 e / 2 ^ 53" using u2 by simp
  also have "\<dots> \<le> \<bar>x\<bar> / 2 ^ 53" using eb by (simp add: divide_right_mono)
  finally have err: "\<bar>y - x\<bar> \<le> \<bar>x\<bar> / 2 ^ 53" .
  have "\<bar>x\<bar> / 2 ^ 53 \<le> \<bar>x\<bar>" by (simp add: field_simps)
  with err have "\<bar>y\<bar> \<le> 2 * \<bar>x\<bar>" by linarith
  also have "\<dots> \<le> 2 ^ 61" using hi by simp
  also have "(2::rat) ^ 61 = pow2 61" by (simp add: pow2_def)
  also have "\<dots> < pow2 1024" by (simp add: pow2_less_iff)
  finally have fin: "\<not> pow2 1024 \<le> \<bar>y\<bar>" by simp
  have f: "fl x = Fin y"
    using fl_normal[OF lo'] fin unfolding y_def n_def u_def e_def Let_def by simp
  have "0 \<le> x \<longrightarrow> 0 \<le> y"
  proof
    assume "0 \<le> x"
    then have "0 \<le> x / u" using u0 by simp
    then have "0 \<le> n" unfolding n_def by (rule round_half_even_nonneg)
    then show "0 \<le> y" using u0 by (simp add: y_def)
  qed
  with f err show ?thesis by blast
qed

lemma fl_int:
  assumes "\<bar>n\<bar> < 2 ^ 53"
  shows "fl (rat_of_int n) = Fin (rat_of_int n)"
proof (cases "n = 0")
  case True
  then show ?thesis by (simp add: fl_def)
next
  case False
  define x where "x = rat_of_int n"
  define e where "e = ilog2 \<bar>x\<bar>"
  have x1: "1 \<le> \<bar>x\<bar>" using False unfolding x_def by (simp flip: of_int_abs)
  have xp: "0 < \<bar>x\<bar>" using x1 by linarith
  have "rat_of_int \<bar>n\<bar> < rat_of_int (2 ^ 53)" using assms by (simp only: of_int_less_iff)
  then have xh: "\<bar>x\<bar> < pow2 53" by (simp add: x_def pow2_def)
  have "pow2 e \<le> \<bar>x\<bar>" unfolding e_def by (rule ilog2_bounds(1)[OF xp])
  with xh have "pow2 e < pow2 53" by linarith
  then have e52: "e \<le> 52" by (simp add: pow2_less_iff)
  have "\<bar>x\<bar> < pow2 (e + 1)" unfolding e_def by (rule ilog2_bounds(2)[OF xp])
  with x1 have "pow2 0 < pow2 (e + 1)" by (simp add: pow2_def)
  then have e0: "0 \<le> e" by (simp add: pow2_less_iff)
  define k where "k = nat (52 - e)"
  have u: "pow2 (e - 52) = 1 / 2 ^ k"
  proof (cases "e = 52")
    case True then show ?thesis by (simp add: pow2_def k_def)
  next
    case False
    then have "e - 52 < 0" using e52 by simp
    moreover have "nat (- (e - 52)) = k" by (simp add: k_def)
    ultimately show ?thesis by (simp add: pow2_def)
  qed
  have "x / pow2 (e - 52) = rat_of_int (n * 2 ^ k)" by (simp add: u x_def)
  then have r: "round_half_even (x / pow2 (e - 52)) = n * 2 ^ k" by (simp only: round_half_even_int)
  have y: "rat_of_int (n * 2 ^ k) * pow2 (e - 52) = x" by (simp add: u x_def)
  have "pow2 (- 1022) \<le> pow2 0" by (simp add: pow2_le_iff)
  with x1 have lo: "pow2 (- 1022) \<le> \<bar>x\<bar>" by (simp add: pow2_def)
  have "pow2 53 < pow2 1024" by (simp add: pow2_less_iff)
  with xh have fin: "\<not> pow2 1024 \<le> \<bar>x\<bar>" by linarith
  have "fl x = Fin x" using fl_normal[OF lo] fin unfolding Let_def e_def[symmetric] r y by simp
  then show ?thesis by (simp add: x_def)
qed

text \<open>
  Rules that evaluate the rounding of a numeral, and a \<open>let\<close> once the value it binds is
  known, for the examples.
\<close>

lemma floor_rat_numeral:
  "\<lfloor>numeral a / numeral b :: rat\<rfloor> = numeral a div numeral b"
  by (metis floor_divide_of_int_eq of_int_numeral)

lemma floor_rat_neg_numeral:
  "\<lfloor>- (numeral a / numeral b) :: rat\<rfloor> = - numeral a div numeral b"
  by (metis floor_divide_of_int_eq of_int_numeral of_int_minus minus_divide_left)

lemma fl_numeral:
  "(numeral k :: int) < 9007199254740992 \<Longrightarrow> fl (numeral k) = Fin (numeral k)"
  using fl_int[of "numeral k"] by simp

lemma fl_neg_numeral:
  "(numeral k :: int) < 9007199254740992 \<Longrightarrow> fl (- numeral k) = Fin (- numeral k)"
  using fl_int[of "- numeral k"] by simp

lemma fl_0: "fl 0 = Fin 0"
  by (simp add: fl_def)

lemma fl_1: "fl 1 = Fin 1"
  using fl_int[of 1] by simp

lemma fl_neg_1: "fl (- 1) = Fin (- 1)"
  using fl_int[of "- 1"] by simp

lemma fl_big:
  "\<not> (numeral k :: int) < 9007199254740992 \<Longrightarrow>
     fl (numeral k) = overflow (numeral k) (of_int (round_half_even (numeral k / ulp (numeral k))) * ulp (numeral k))"
  "\<not> (numeral k :: int) < 9007199254740992 \<Longrightarrow>
     fl (- numeral k) = overflow (- numeral k) (of_int (round_half_even (- numeral k / ulp (- numeral k))) * ulp (- numeral k))"
  by (simp_all add: fl_def)

lemma fl_frac:
  "fl (numeral a / numeral b) =
     overflow (numeral a / numeral b)
       (of_int (round_half_even (numeral a / numeral b / ulp (numeral a / numeral b))) * ulp (numeral a / numeral b))"
  "fl (- (numeral a / numeral b)) =
     overflow (- (numeral a / numeral b))
       (of_int (round_half_even (- (numeral a / numeral b) / ulp (- (numeral a / numeral b)))) * ulp (- (numeral a / numeral b)))"
  "fl (1 / numeral b) =
     overflow (1 / numeral b)
       (of_int (round_half_even (1 / numeral b / ulp (1 / numeral b))) * ulp (1 / numeral b))"
  "fl (- (1 / numeral b)) =
     overflow (- (1 / numeral b))
       (of_int (round_half_even (- (1 / numeral b) / ulp (- (1 / numeral b)))) * ulp (- (1 / numeral b)))"
  by (simp_all add: fl_def)

lemma Let_value:
  "Let (Fin a) f = f (Fin a)"
  "Let PosInf f = f PosInf"
  "Let NegInf f = f NegInf"
  "Let NaN f = f NaN"
  "Let \<lparr>textual = x, graphical = y, symbolical = z\<rparr> g = g \<lparr>textual = x, graphical = y, symbolical = z\<rparr>"
  by (simp_all add: Let_def)

lemmas fl_eval = fl_numeral fl_neg_numeral fl_0 fl_1 fl_neg_1 fl_big fl_frac overflow_def ulp_def
  ilog2_def round_half_even_def tie_even_def pow2_def ceiling_def compute_bitlen
  floor_rat_numeral floor_rat_neg_numeral

lemmas hsc_eval = handleSliderChange_def int_split_def total_of_def scale_all_def js_neq_def
      js_sub_def inf_of_sign_def is_integer_def initial_priorities_def Let_value fl_eval

section \<open>Properties of the normalizer\<close>

text \<open>
  The factor and the scaled values, for integers of magnitude up to \<open>10^12\<close>: the scaled
  value is an integer small enough for the sums that follow to be exact, and on
  non-negative values it is not negative and not above the value that exact arithmetic
  would give.
\<close>

lemma floor_half [simp]: "\<lfloor>1 / 2 :: rat\<rfloor> = 0"
  by (simp add: floor_eq_iff)

lemma factor_props:
  fixes T :: int
  assumes T0: "T \<noteq> 0" and TB: "\<bar>T\<bar> \<le> 3 * 10 ^ 12"
  shows "\<exists>f. js_div (Fin 100) (Fin (rat_of_int T)) = Fin f
           \<and> \<bar>f - 100 / rat_of_int T\<bar> \<le> (100 / rat_of_int \<bar>T\<bar>) / 2 ^ 53
           \<and> (0 < T \<longrightarrow> 0 \<le> f)"
proof -
  define q where "q = 100 / rat_of_int T"
  have aT: "1 \<le> rat_of_int \<bar>T\<bar>" using T0 by (simp flip: of_int_abs)
  have aT2: "rat_of_int \<bar>T\<bar> \<le> 3 * 10 ^ 12" using TB by (simp flip: of_int_abs)
  have aq: "\<bar>q\<bar> = 100 / rat_of_int \<bar>T\<bar>" by (simp add: q_def abs_divide)
  have "\<bar>q\<bar> \<le> 100" unfolding aq using aT by (simp add: field_simps)
  then have hi: "\<bar>q\<bar> \<le> 2 ^ 60" by simp
  have lo: "1 / 2 ^ 60 \<le> \<bar>q\<bar>" unfolding aq using aT aT2 by (simp add: field_simps)
  from fl_err[OF lo hi] obtain f where f: "fl q = Fin f" "\<bar>f - q\<bar> \<le> \<bar>q\<bar> / 2 ^ 53"
      "0 \<le> q \<longrightarrow> 0 \<le> f" by blast
  have "js_div (Fin 100) (Fin (rat_of_int T)) = Fin f" using T0 f(1) by (simp add: q_def)
  moreover have "0 < T \<longrightarrow> 0 \<le> f" using f(3) by (simp add: q_def)
  moreover have "\<bar>f - 100 / rat_of_int T\<bar> \<le> (100 / rat_of_int \<bar>T\<bar>) / 2 ^ 53"
    using f(2) unfolding aq unfolding q_def .
  ultimately show ?thesis by blast
qed

lemma scaled_props:
  fixes x T :: int
  assumes xB: "\<bar>x\<bar> \<le> 10 ^ 12" and T0: "T \<noteq> 0" and TB: "\<bar>T\<bar> \<le> 3 * 10 ^ 12"
  shows "Math_round (js_mul (Fin (rat_of_int x)) (js_div (Fin 100) (Fin (rat_of_int T))))
           = Fin (rat_of_int (scaled x T))"
    and "\<bar>scaled x T\<bar> \<le> 4 * 10 ^ 14 + 1"
    and "0 \<le> x \<Longrightarrow> 0 < T \<Longrightarrow> 0 \<le> scaled x T"
    and "0 \<le> x \<Longrightarrow> 0 < T \<Longrightarrow> scaled x T \<le> \<lfloor>rat_of_int x * (100 / rat_of_int T) + 1 / 2\<rfloor>"
proof -
  define q0 where "q0 = 100 / rat_of_int T"
  define A where "A = rat_of_int \<bar>T\<bar>"
  from factor_props[OF T0 TB] obtain f where f: "js_div (Fin 100) (Fin (rat_of_int T)) = Fin f"
      "\<bar>f - q0\<bar> \<le> (100 / A) / 2 ^ 53" "0 < T \<longrightarrow> 0 \<le> f"
    unfolding q0_def A_def by blast
  have A1: "1 \<le> A" using T0 unfolding A_def by (simp flip: of_int_abs)
  have A2: "A \<le> 3 * 10 ^ 12" using TB unfolding A_def by (simp flip: of_int_abs)
  have aq: "\<bar>q0\<bar> = 100 / A" by (simp add: q0_def A_def abs_divide)
  define D where "D = 100 / A"
  define E where "E = D / 2 ^ 53"
  have D0: "0 < D" using A1 by (simp add: D_def)
  have fE: "\<bar>f - q0\<bar> \<le> E" using f(2) by (simp only: E_def D_def)
  have small: "E \<le> D / 2" using D0 by (simp add: E_def field_simps)
  have aq': "\<bar>q0\<bar> = D" by (simp only: aq D_def)
  have "\<bar>f\<bar> \<le> \<bar>q0\<bar> + \<bar>f - q0\<bar>" by linarith
  then have fu': "\<bar>f\<bar> \<le> 2 * D" using fE small aq' by linarith
  have "D \<le> 100" using A1 by (simp add: D_def field_simps)
  with fu' have fu: "\<bar>f\<bar> \<le> 200" by linarith
  have "\<bar>q0\<bar> \<le> \<bar>f\<bar> + \<bar>f - q0\<bar>" by linarith
  then have fl': "D / 2 \<le> \<bar>f\<bar>" using fE small aq' by linarith
  have "1 / 2 ^ 60 \<le> D / 2" using A1 A2 by (simp add: D_def field_simps)
  with fl' have fl0: "1 / 2 ^ 60 \<le> \<bar>f\<bar>" by linarith
  have res: "Math_round (js_mul (Fin (rat_of_int x)) (js_div (Fin 100) (Fin (rat_of_int T))))
           = Fin (rat_of_int (scaled x T))
       \<and> \<bar>scaled x T\<bar> \<le> 4 * 10 ^ 14 + 1
       \<and> (0 \<le> x \<and> 0 < T \<longrightarrow> 0 \<le> scaled x T
            \<and> scaled x T \<le> \<lfloor>rat_of_int x * (100 / rat_of_int T) + 1 / 2\<rfloor>)"
  proof (cases "x = 0")
    case True
    have m: "Math_round (js_mul (Fin (rat_of_int x)) (js_div (Fin 100) (Fin (rat_of_int T)))) = Fin 0"
      unfolding f(1) using True by (simp add: fl_def)
    then have "scaled x T = 0" unfolding scaled_def by simp
    with m True show ?thesis by simp
  next
    case False
    define X where "X = rat_of_int \<bar>x\<bar>"
    have X1: "1 \<le> X" using False unfolding X_def by (simp flip: of_int_abs)
    have X2: "X \<le> 10 ^ 12" using xB unfolding X_def by (simp flip: of_int_abs)
    define z where "z = rat_of_int x * f"
    have az: "\<bar>z\<bar> = X * \<bar>f\<bar>" by (simp add: z_def X_def abs_mult)
    have "1 * \<bar>f\<bar> \<le> X * \<bar>f\<bar>" using X1 by (intro mult_right_mono) simp_all
    with fl0 have zlo: "1 / 2 ^ 60 \<le> \<bar>z\<bar>" unfolding az by simp
    have "X * \<bar>f\<bar> \<le> 10 ^ 12 * 200" using X1 X2 fu by (intro mult_mono) simp_all
    then have zu: "\<bar>z\<bar> \<le> 2 * 10 ^ 14" unfolding az by simp
    then have zhi: "\<bar>z\<bar> \<le> 2 ^ 60" by simp
    from fl_err[OF zlo zhi] obtain p where p: "fl z = Fin p" "\<bar>p - z\<bar> \<le> \<bar>z\<bar> / 2 ^ 53"
        "0 \<le> z \<longrightarrow> 0 \<le> p" by blast
    have m: "Math_round (js_mul (Fin (rat_of_int x)) (js_div (Fin 100) (Fin (rat_of_int T))))
               = Fin (rat_of_int \<lfloor>p + 1 / 2\<rfloor>)"
      unfolding f(1) using p(1) by (simp add: z_def)
    then have sc: "scaled x T = \<lfloor>p + 1 / 2\<rfloor>" unfolding scaled_def by simp
    define Ez where "Ez = \<bar>z\<bar> / 2 ^ 53"
    have pE: "\<bar>p - z\<bar> \<le> Ez" using p(2) by (simp only: Ez_def)
    have Ez1: "Ez \<le> \<bar>z\<bar>" by (simp add: Ez_def field_simps)
    with pE have "\<bar>p\<bar> \<le> 2 * \<bar>z\<bar>" by linarith
    with zu have pu: "\<bar>p\<bar> \<le> 4 * 10 ^ 14" by linarith
    have "p + 1 / 2 < rat_of_int (4 * 10 ^ 14 + 2)" using pu by simp
    then have u1: "\<lfloor>p + 1 / 2\<rfloor> < 4 * 10 ^ 14 + 2" by (simp only: floor_less_iff)
    have "rat_of_int (- (4 * 10 ^ 14 + 1)) \<le> p + 1 / 2" using pu by simp
    then have u2: "- (4 * 10 ^ 14 + 1) \<le> \<lfloor>p + 1 / 2\<rfloor>" by (simp only: le_floor_iff)
    have b: "\<bar>scaled x T\<bar> \<le> 4 * 10 ^ 14 + 1" unfolding sc using u1 u2 by linarith
    have pos: "0 \<le> x \<and> 0 < T \<longrightarrow> 0 \<le> scaled x T
            \<and> scaled x T \<le> \<lfloor>rat_of_int x * (100 / rat_of_int T) + 1 / 2\<rfloor>"
    proof
      assume h: "0 \<le> x \<and> 0 < T"
      then have xp: "0 < x" and Tp: "0 < T" using False by auto
      have AT: "A = rat_of_int T" using Tp by (simp add: A_def)
      have Xx: "X = rat_of_int x" using xp by (simp add: X_def)
      have f0: "0 \<le> f" using f(3) Tp by simp
      have z0: "0 \<le> z" unfolding z_def using xp f0 by simp
      have p0: "0 \<le> p" using p(3) z0 by simp
      then have "0 \<le> \<lfloor>p + 1 / 2\<rfloor>" by simp
      then have lo: "0 \<le> scaled x T" by (simp only: sc)
      define q where "q = X * q0"
      have q0p: "0 < q0" using Tp by (simp add: q0_def)
      have qA: "q = 100 * X / A" by (simp add: q_def q0_def AT)
      define Eq where "Eq = q / 2 ^ 53"
      have zq: "\<bar>z - q\<bar> \<le> q / 2 ^ 53"
      proof -
        have "z - q = X * (f - q0)" by (simp add: z_def q_def Xx algebra_simps)
        then have "\<bar>z - q\<bar> = X * \<bar>f - q0\<bar>" using X1 by (simp add: abs_mult)
        also have "\<dots> \<le> X * E" using fE X1 by (intro mult_left_mono) simp_all
        also have "\<dots> = q / 2 ^ 53" by (simp add: qA E_def D_def)
        finally show ?thesis .
      qed
      have q_nonneg: "0 \<le> q" unfolding q_def using X1 q0p by simp
      have zq': "\<bar>z - q\<bar> \<le> Eq" using zq by (simp only: Eq_def)
      have "Eq \<le> q" using q_nonneg by (simp add: Eq_def field_simps)
      with zq' have z2q: "\<bar>z\<bar> \<le> 2 * q" by linarith
      then have "\<bar>z\<bar> / 2 ^ 53 \<le> 2 * q / 2 ^ 53" by (rule divide_right_mono) simp
      then have Ez2: "Ez \<le> 2 * Eq" by (simp add: Ez_def Eq_def)
      have "\<bar>p - q\<bar> \<le> \<bar>p - z\<bar> + \<bar>z - q\<bar>" by linarith
      with pE zq' Ez2 have pq: "\<bar>p - q\<bar> \<le> 3 * Eq" by linarith
      define H where "H = 1 / (2 * A)"
      have "3 * Eq = (300 * X / 2 ^ 53) / A" by (simp add: Eq_def qA)
      also have "\<dots> < (1 / 2) / A" using X2 A1 by (intro divide_strict_right_mono) simp_all
      also have "\<dots> = H" by (simp add: H_def)
      finally have "3 * Eq < H" .
      with pq have "p < q + H" by linarith
      then have close: "p < q + 1 / (2 * A)" by (simp only: H_def)
      define K where "K = \<lfloor>q + 1 / 2\<rfloor> + 1"
      have "q + 1 / 2 < rat_of_int K" unfolding K_def by linarith
      then have "0 < 2 * A * (rat_of_int K - 1 / 2 - q)" using A1 by simp
      also have "2 * A * (rat_of_int K - 1 / 2 - q) = rat_of_int (2 * T * K - T - 200 * x)"
        using A1 by (simp add: qA AT Xx field_simps)
      finally have "0 < 2 * T * K - T - 200 * x" by (simp only: of_int_0_less_iff)
      then have "1 \<le> 2 * T * K - T - 200 * x" by simp
      then have "rat_of_int 1 \<le> rat_of_int (2 * T * K - T - 200 * x)" by (simp only: of_int_le_iff)
      also have "rat_of_int (2 * T * K - T - 200 * x) = 2 * A * (rat_of_int K - 1 / 2 - q)"
        using A1 by (simp add: qA AT Xx field_simps)
      finally have "1 \<le> 2 * A * (rat_of_int K - 1 / 2 - q)" by simp
      then have "1 / (2 * A) \<le> rat_of_int K - 1 / 2 - q" using A1 by (simp add: field_simps)
      then have "H \<le> rat_of_int K - 1 / 2 - q" by (simp only: H_def)
      with \<open>p < q + H\<close> have "p + 1 / 2 < rat_of_int K" by linarith
      then have "\<lfloor>p + 1 / 2\<rfloor> < K" by (simp only: floor_less_iff)
      then have "\<lfloor>p + 1 / 2\<rfloor> \<le> \<lfloor>q + 1 / 2\<rfloor>" by (simp add: K_def)
      moreover have "q = rat_of_int x * (100 / rat_of_int T)" by (simp add: q_def q0_def Xx)
      ultimately show "0 \<le> scaled x T
            \<and> scaled x T \<le> \<lfloor>rat_of_int x * (100 / rat_of_int T) + 1 / 2\<rfloor>"
        using lo sc by simp
    qed
    from m sc b pos show ?thesis by simp
  qed
  from res show "Math_round (js_mul (Fin (rat_of_int x)) (js_div (Fin 100) (Fin (rat_of_int T))))
           = Fin (rat_of_int (scaled x T))" by blast
  from res show "\<bar>scaled x T\<bar> \<le> 4 * 10 ^ 14 + 1" by blast
  from res show "0 \<le> x \<Longrightarrow> 0 < T \<Longrightarrow> 0 \<le> scaled x T" by blast
  from res show "0 \<le> x \<Longrightarrow> 0 < T \<Longrightarrow> scaled x T \<le> \<lfloor>rat_of_int x * (100 / rat_of_int T) + 1 / 2\<rfloor>" by blast
qed

lemma js_add_int:
  fixes a b :: int
  assumes "\<bar>a + b\<bar> < 2 ^ 53"
  shows "js_add (Fin (rat_of_int a)) (Fin (rat_of_int b)) = Fin (rat_of_int (a + b))"
  using fl_int[OF assms] by simp

lemma total_int_split:
  fixes a b c :: int
  assumes "\<bar>a\<bar> \<le> 10 ^ 15" "\<bar>b\<bar> \<le> 10 ^ 15" "\<bar>c\<bar> \<le> 10 ^ 15"
  shows "total_of (int_split a b c) = Fin (rat_of_int (a + b + c))"
proof -
  have 1: "js_add (Fin 0) (Fin (rat_of_int a)) = Fin (rat_of_int a)"
    using js_add_int[of 0 a] assms by simp
  have 2: "js_add (Fin (rat_of_int a)) (Fin (rat_of_int b)) = Fin (rat_of_int (a + b))"
    using assms by (intro js_add_int) simp
  have 3: "js_add (Fin (rat_of_int (a + b))) (Fin (rat_of_int c)) = Fin (rat_of_int (a + b + c))"
    using assms by (intro js_add_int) simp
  show ?thesis by (simp add: total_of_def int_split_def 1 2 3 del: js_add.simps of_int_add)
qed

lemma js_neq_Fin: "js_neq (Fin a) (Fin b) = (a \<noteq> b)"
  by (simp add: js_neq_def)

lemma scale_all_int_split:
  fixes t g s :: int
  assumes "\<bar>t\<bar> \<le> 10 ^ 12" "\<bar>g\<bar> \<le> 10 ^ 12" "\<bar>s\<bar> \<le> 10 ^ 12" and T: "t + g + s \<noteq> 0"
  shows "scale_all (js_div (Fin 100) (total_of (int_split t g s))) (int_split t g s)
      = int_split (scaled t (t + g + s)) (scaled g (t + g + s)) (scaled s (t + g + s))"
proof -
  have tot: "total_of (int_split t g s) = Fin (rat_of_int (t + g + s))"
    using assms by (intro total_int_split) simp_all
  have TB: "\<bar>t + g + s\<bar> \<le> 3 * 10 ^ 12" using assms by simp
  note sp = scaled_props(1)[OF _ T TB]
  show ?thesis unfolding tot
    by (simp add: scale_all_def int_split_def sp[OF assms(1)] sp[OF assms(2)] sp[OF assms(3)]
        del: js_div.simps js_mul.simps Math_round.simps of_int_add)
qed

lemma hsc_body:
  assumes B: "\<bar>t\<bar> \<le> 10 ^ 12" "\<bar>g\<bar> \<le> 10 ^ 12" "\<bar>s\<bar> \<le> 10 ^ 12" and T: "t + g + s \<noteq> 0"
  shows "(let total = total_of (int_split t g s)
      in if js_neq total (Fin 100) then
           (let factor = js_div (Fin 100) total;
                scaled = scale_all factor (int_split t g s);
                finalTotal = total_of scaled
            in if js_neq finalTotal (Fin 100) then
                 (let diff = js_sub (Fin 100) finalTotal
                  in Inr (set_key scaled k (js_add (get_key scaled k) diff)))
               else Inr scaled)
         else Inr (int_split t g s)) = (Inr (normalized k t g s) :: error + PriorityValues)"
proof -
  have tot: "total_of (int_split t g s) = Fin (rat_of_int (t + g + s))"
    using B by (intro total_int_split) simp_all
  show ?thesis
  proof (cases "t + g + s = 100")
    case True
    then show ?thesis by (simp add: tot js_neq_Fin normalized_def)
  next
    case False
    define a where "a = scaled t (t + g + s)"
    define b where "b = scaled g (t + g + s)"
    define c where "c = scaled s (t + g + s)"
    have TB: "\<bar>t + g + s\<bar> \<le> 3 * 10 ^ 12" using B by simp
    note sb = scaled_props(2)[OF _ T TB]
    have ab: "\<bar>a\<bar> \<le> 4 * 10 ^ 14 + 1" "\<bar>b\<bar> \<le> 4 * 10 ^ 14 + 1" "\<bar>c\<bar> \<le> 4 * 10 ^ 14 + 1"
      unfolding a_def b_def c_def using sb[OF B(1)] sb[OF B(2)] sb[OF B(3)] by simp_all
    have sc: "scale_all (js_div (Fin 100) (total_of (int_split t g s))) (int_split t g s) = int_split a b c"
      unfolding a_def b_def c_def by (rule scale_all_int_split[OF B T])
    have tot2: "total_of (int_split a b c) = Fin (rat_of_int (a + b + c))"
      using ab by (intro total_int_split) simp_all
    have nz: "js_neq (total_of (int_split t g s)) (Fin 100)"
      using False by (simp add: tot js_neq_Fin)
    show ?thesis
    proof (cases "a + b + c = 100")
      case True
      have "normalized k t g s = int_split a b c"
        using False True[unfolded a_def b_def c_def]
        unfolding normalized_def Let_def a_def b_def c_def by (simp only: if_False if_True simp_thms)
      moreover have "\<not> js_neq (total_of (int_split a b c)) (Fin 100)"
        using True by (simp add: tot2 js_neq_Fin)
      ultimately show ?thesis unfolding Let_def sc using nz by (simp only: if_True if_False)
    next
      case F2: False
      have n: "normalized k t g s = (case k of Textual \<Rightarrow> int_split (100 - b - c) b c
                | Graphical \<Rightarrow> int_split a (100 - a - c) c
                | Symbolical \<Rightarrow> int_split a b (100 - a - b))"
        using False F2[unfolded a_def b_def c_def]
        unfolding normalized_def Let_def a_def b_def c_def by (simp only: if_False)
      have "js_sub (Fin 100) (Fin (rat_of_int (a + b + c)))
              = js_add (Fin (rat_of_int 100)) (Fin (rat_of_int (- (a + b + c))))"
        by (simp add: js_sub_def del: js_add.simps)
      also have "\<dots> = Fin (rat_of_int (100 + - (a + b + c)))"
        using ab by (intro js_add_int) simp
      finally have d: "js_sub (Fin 100) (total_of (int_split a b c)) = Fin (rat_of_int (100 - (a + b + c)))"
        by (simp add: tot2)
      have e: "\<And>x. x \<in> {a, b, c} \<Longrightarrow>
          js_add (Fin (rat_of_int x)) (Fin (rat_of_int (100 - (a + b + c)))) = Fin (rat_of_int (x + (100 - (a + b + c))))"
        using ab by (intro js_add_int) auto
      have "set_key (int_split a b c) k (js_add (get_key (int_split a b c) k)
              (js_sub (Fin 100) (total_of (int_split a b c)))) = normalized k t g s"
        unfolding d n by (cases k) (simp_all add: int_split_def e del: js_add.simps of_int_add of_int_diff)
      moreover have "js_neq (total_of (int_split a b c)) (Fin 100)"
        using F2 by (simp add: tot2 js_neq_Fin)
      ultimately show ?thesis unfolding Let_def sc using nz by (simp only: if_True)
    qed
  qed
qed

lemma normalized_sum: "\<exists>a b c. normalized k t g s = int_split a b c \<and> a + b + c = 100"
proof -
  have I: "\<And>a b c :: int. a + b + c = 100 \<Longrightarrow>
      \<exists>a' b' c'. int_split a b c = int_split a' b' c' \<and> a' + b' + c' = 100"
    by blast
  show ?thesis unfolding normalized_def Let_def by (cases k) (auto intro!: I)
qed

lemma round_pair_bound:
  fixes y z T :: int
  assumes "0 \<le> y" "0 \<le> z" "y + z \<le> T" "0 < T"
  shows "\<lfloor>rat_of_int y * (100 / rat_of_int T) + 1 / 2\<rfloor>
       + \<lfloor>rat_of_int z * (100 / rat_of_int T) + 1 / 2\<rfloor> \<le> 101"
proof -
  let ?f = "100 / rat_of_int T"
  have le1: "rat_of_int y + rat_of_int z \<le> rat_of_int T"
    using assms by (simp flip: of_int_add)
  have "rat_of_int y * ?f + rat_of_int z * ?f = (rat_of_int y + rat_of_int z) * ?f"
    by (rule distrib_right[symmetric])
  also have "\<dots> \<le> 100" using le1 assms(4) by (simp add: field_simps)
  finally have s: "rat_of_int y * ?f + rat_of_int z * ?f \<le> 100" .
  have "rat_of_int (\<lfloor>rat_of_int y * ?f + 1 / 2\<rfloor> + \<lfloor>rat_of_int z * ?f + 1 / 2\<rfloor>)
        \<le> (rat_of_int y * ?f + 1 / 2) + (rat_of_int z * ?f + 1 / 2)"
    unfolding of_int_add by (intro add_mono of_int_floor_le)
  also have "\<dots> \<le> 101" using s by simp
  finally have "rat_of_int (\<lfloor>rat_of_int y * ?f + 1 / 2\<rfloor> + \<lfloor>rat_of_int z * ?f + 1 / 2\<rfloor>) \<le> rat_of_int 101"
    by simp
  then show ?thesis by (simp only: of_int_le_iff)
qed

lemma round_pair_bound_strict:
  fixes y z T :: int
  assumes "0 \<le> y" "0 \<le> z" "y + z < T"
  shows "\<lfloor>rat_of_int y * (100 / rat_of_int T) + 1 / 2\<rfloor>
       + \<lfloor>rat_of_int z * (100 / rat_of_int T) + 1 / 2\<rfloor> \<le> 100"
proof -
  let ?f = "100 / rat_of_int T"
  have T: "0 < T" using assms by linarith
  have lt1: "rat_of_int y + rat_of_int z < rat_of_int T"
    using assms by (simp flip: of_int_add)
  have "rat_of_int y * ?f + rat_of_int z * ?f = (rat_of_int y + rat_of_int z) * ?f"
    by (rule distrib_right[symmetric])
  also have "\<dots> < 100" using lt1 T by (simp add: field_simps)
  finally have s: "rat_of_int y * ?f + rat_of_int z * ?f < 100" .
  have "rat_of_int (\<lfloor>rat_of_int y * ?f + 1 / 2\<rfloor> + \<lfloor>rat_of_int z * ?f + 1 / 2\<rfloor>)
        \<le> (rat_of_int y * ?f + 1 / 2) + (rat_of_int z * ?f + 1 / 2)"
    unfolding of_int_add by (intro add_mono of_int_floor_le)
  also have "\<dots> < 101" using s by simp
  finally have "rat_of_int (\<lfloor>rat_of_int y * ?f + 1 / 2\<rfloor> + \<lfloor>rat_of_int z * ?f + 1 / 2\<rfloor>) < rat_of_int 101"
    by simp
  then have "\<lfloor>rat_of_int y * ?f + 1 / 2\<rfloor> + \<lfloor>rat_of_int z * ?f + 1 / 2\<rfloor> < 101"
    by (simp only: of_int_less_iff)
  then show ?thesis by simp
qed

lemma scaled_pair_bound:
  fixes y z T :: int
  assumes "0 \<le> y" "y \<le> 10 ^ 12" "0 \<le> z" "z \<le> 10 ^ 12" "0 < T" "T \<le> 3 * 10 ^ 12"
  shows "y + z \<le> T \<Longrightarrow> scaled y T + scaled z T \<le> 101"
    and "y + z < T \<Longrightarrow> scaled y T + scaled z T \<le> 100"
proof -
  have T0: "T \<noteq> 0" and TB: "\<bar>T\<bar> \<le> 3 * 10 ^ 12" using assms by simp_all
  have yB: "\<bar>y\<bar> \<le> 10 ^ 12" and zB: "\<bar>z\<bar> \<le> 10 ^ 12" using assms by simp_all
  have y: "scaled y T \<le> \<lfloor>rat_of_int y * (100 / rat_of_int T) + 1 / 2\<rfloor>"
    by (rule scaled_props(4)[OF yB T0 TB assms(1) assms(5)])
  have z: "scaled z T \<le> \<lfloor>rat_of_int z * (100 / rat_of_int T) + 1 / 2\<rfloor>"
    by (rule scaled_props(4)[OF zB T0 TB assms(3) assms(5)])
  show "y + z \<le> T \<Longrightarrow> scaled y T + scaled z T \<le> 101"
    using round_pair_bound[OF assms(1) assms(3) _ assms(5)] y z by fastforce
  show "y + z < T \<Longrightarrow> scaled y T + scaled z T \<le> 100"
    using round_pair_bound_strict[OF assms(1) assms(3)] y z by fastforce
qed

lemma handleSliderChange_normalized:
  assumes "set_key (int_split t g s) k (Fin (rat_of_int v)) = int_split t' g' s'"
      and "\<bar>t'\<bar> \<le> 10 ^ 12" "\<bar>g'\<bar> \<le> 10 ^ 12" "\<bar>s'\<bar> \<le> 10 ^ 12"
      and "t' + g' + s' \<noteq> 0"
  shows "handleSliderChange (int_split t g s) k (Fin (rat_of_int v)) = Inr (normalized k t' g' s')"
  using hsc_body[OF assms(2-5), of k] unfolding handleSliderChange_def assms(1) Let_def by simp

lemma normalized_nonneg:
  assumes "0 \<le> t" "t \<le> 10 ^ 12" "0 \<le> g" "g \<le> 10 ^ 12" "0 \<le> s" "s \<le> 10 ^ 12"
      and "t + g + s \<noteq> 0"
  shows "\<exists>a b c. normalized k t g s = int_split a b c
      \<and> (case k of Textual \<Rightarrow> - 1 \<le> a \<and> (0 < t \<longrightarrow> 0 \<le> a) \<and> 0 \<le> b \<and> 0 \<le> c
                  | Graphical \<Rightarrow> 0 \<le> a \<and> - 1 \<le> b \<and> (0 < g \<longrightarrow> 0 \<le> b) \<and> 0 \<le> c
                  | Symbolical \<Rightarrow> 0 \<le> a \<and> 0 \<le> b \<and> - 1 \<le> c \<and> (0 < s \<longrightarrow> 0 \<le> c))"
proof -
  define T where "T = t + g + s"
  define a where "a = scaled t T"
  define b where "b = scaled g T"
  define c where "c = scaled s T"
  have T: "0 < T" using assms by (simp add: T_def)
  have T3: "T \<le> 3 * 10 ^ 12" using assms by (simp add: T_def)
  have T0: "T \<noteq> 0" and TB: "\<bar>T\<bar> \<le> 3 * 10 ^ 12" using T T3 by simp_all
  have B: "\<bar>t\<bar> \<le> 10 ^ 12" "\<bar>g\<bar> \<le> 10 ^ 12" "\<bar>s\<bar> \<le> 10 ^ 12" using assms by simp_all
  have a0: "0 \<le> a" unfolding a_def by (rule scaled_props(3)[OF B(1) T0 TB assms(1) T])
  have b0: "0 \<le> b" unfolding b_def by (rule scaled_props(3)[OF B(2) T0 TB assms(3) T])
  have c0: "0 \<le> c" unfolding c_def by (rule scaled_props(3)[OF B(3) T0 TB assms(5) T])
  have bc: "b + c \<le> 101" unfolding b_def c_def
    using assms by (intro scaled_pair_bound(1)[OF assms(3,4,5,6) T T3]) (simp add: T_def)
  have ac: "a + c \<le> 101" unfolding a_def c_def
    using assms by (intro scaled_pair_bound(1)[OF assms(1,2,5,6) T T3]) (simp add: T_def)
  have ab: "a + b \<le> 101" unfolding a_def b_def
    using assms by (intro scaled_pair_bound(1)[OF assms(1,2,3,4) T T3]) (simp add: T_def)
  have bc': "0 < t \<Longrightarrow> b + c \<le> 100" unfolding b_def c_def
    using assms by (intro scaled_pair_bound(2)[OF assms(3,4,5,6) T T3]) (simp add: T_def)
  have ac': "0 < g \<Longrightarrow> a + c \<le> 100" unfolding a_def c_def
    using assms by (intro scaled_pair_bound(2)[OF assms(1,2,5,6) T T3]) (simp add: T_def)
  have ab': "0 < s \<Longrightarrow> a + b \<le> 100" unfolding a_def b_def
    using assms by (intro scaled_pair_bound(2)[OF assms(1,2,3,4) T T3]) (simp add: T_def)
  have n: "normalized k t g s = (if T = 100 then int_split t g s
         else if a + b + c = 100 then int_split a b c
         else (case k of Textual \<Rightarrow> int_split (100 - b - c) b c
              | Graphical \<Rightarrow> int_split a (100 - a - c) c
              | Symbolical \<Rightarrow> int_split a b (100 - a - b)))"
    unfolding normalized_def Let_def a_def b_def c_def T_def ..
  have R: "\<And>x y z. normalized k t g s = int_split x y z \<Longrightarrow>
      (case k of Textual \<Rightarrow> - 1 \<le> x \<and> (0 < t \<longrightarrow> 0 \<le> x) \<and> 0 \<le> y \<and> 0 \<le> z
                  | Graphical \<Rightarrow> 0 \<le> x \<and> - 1 \<le> y \<and> (0 < g \<longrightarrow> 0 \<le> y) \<and> 0 \<le> z
                  | Symbolical \<Rightarrow> 0 \<le> x \<and> 0 \<le> y \<and> - 1 \<le> z \<and> (0 < s \<longrightarrow> 0 \<le> z))
      \<Longrightarrow> ?thesis"
    by blast
  show ?thesis
  proof (cases "T = 100")
    case True
    then have "normalized k t g s = int_split t g s" by (simp add: n)
    then show ?thesis by (rule R) (use assms in \<open>cases k; simp\<close>)
  next
    case F1: False
    show ?thesis
    proof (cases "a + b + c = 100")
      case True
      then have "normalized k t g s = int_split a b c" using F1 by (simp add: n)
      then show ?thesis by (rule R) (use a0 b0 c0 in \<open>cases k; simp\<close>)
    next
      case F2: False
      show ?thesis
      proof (cases k)
        case Textual
        have "normalized k t g s = int_split (100 - b - c) b c"
          unfolding n using F1 F2 by (simp add: Textual)
        then show ?thesis by (rule R) (use b0 c0 bc bc' Textual in auto)
      next
        case Graphical
        have "normalized k t g s = int_split a (100 - a - c) c"
          unfolding n using F1 F2 by (simp add: Graphical)
        then show ?thesis by (rule R) (use a0 c0 ac ac' Graphical in auto)
      next
        case Symbolical
        have "normalized k t g s = int_split a b (100 - a - b)"
          unfolding n using F1 F2 by (simp add: Symbolical)
        then show ?thesis by (rule R) (use a0 b0 ab ab' Symbolical in auto)
      qed
    qed
  qed
qed

text \<open>
  Three slider moves lead from the initial state to a split that holds negative values:
  the results of the handler are its next inputs, so these are splits it really receives.
\<close>

lemma handleSliderChange_reaches_negative:
  "handleSliderChange initial_priorities Textual (Fin 54) = Inr (int_split 45 27 28)"
  "handleSliderChange (int_split 45 27 28) Symbolical (Fin 0) = Inr (int_split 63 38 (- 1))"
  "handleSliderChange (int_split 63 38 (- 1)) Textual (Fin 0) = Inr (int_split 0 103 (- 3))"
  by (simp_all add: hsc_eval)

text \<open>
  From \<open>(63, 38, -1)\<close> the graphical slider at \<open>1\<close> gives \<open>(100, 2, -2)\<close>, and every move of
  the textual slider to \<open>1\<close> from there multiplies the two other values by 100: after
  eleven moves of a slider between 0 and 100 the split holds \<open>2 * 10^16\<close>, which is beyond
  \<open>2^53\<close>, and the twelfth gives a split whose total is no longer computed exactly.
\<close>

lemma handleSliderChange_reaches_large_1:
  "handleSliderChange (int_split 63 38 (- 1)) Graphical (Fin 1) = Inr (int_split 100 2 (- 2))"
  "handleSliderChange (int_split 100 2 (- 2)) Textual (Fin 1) = Inr (int_split 100 200 (- 200))"
  "handleSliderChange (int_split 100 200 (- 200)) Textual (Fin 1) = Inr (int_split 100 20000 (- 20000))"
  "handleSliderChange (int_split 100 20000 (- 20000)) Textual (Fin 1)
     = Inr (int_split 100 2000000 (- 2000000))"
  "handleSliderChange (int_split 100 2000000 (- 2000000)) Textual (Fin 1)
     = Inr (int_split 100 200000000 (- 200000000))"
  by (simp_all add: hsc_eval)

lemma handleSliderChange_reaches_large_2:
  "handleSliderChange (int_split 100 200000000 (- 200000000)) Textual (Fin 1)
     = Inr (int_split 100 20000000000 (- 20000000000))"
  "handleSliderChange (int_split 100 20000000000 (- 20000000000)) Textual (Fin 1)
     = Inr (int_split 100 2000000000000 (- 2000000000000))"
  "handleSliderChange (int_split 100 2000000000000 (- 2000000000000)) Textual (Fin 1)
     = Inr (int_split 100 200000000000000 (- 200000000000000))"
  "handleSliderChange (int_split 100 200000000000000 (- 200000000000000)) Textual (Fin 1)
     = Inr (int_split 100 20000000000000000 (- 20000000000000000))"
  "handleSliderChange (int_split 100 20000000000000000 (- 20000000000000000)) Textual (Fin 23)
     = Inr (int_split 100 83333333333333344 (- 83333333333333344))"
  by (simp_all add: hsc_eval)

text \<open>
  Claim C1, as stated, fails, in two ways. The split \<open>(0, 103, -3)\<close> is reached above;
  moving the graphical slider to \<open>3\<close> leaves the values \<open>(0, 3, -3)\<close>, which are not all
  zero but whose total is zero. The factor is \<open>100 / 0 = Infinity\<close>, and the handler
  returns \<open>(NaN, NaN, -Infinity)\<close>: no integers, and no sum of 100. And the split
  \<open>(100, 2 * 10^16, -2 * 10^16)\<close> is reached above too; moving the textual slider to \<open>4\<close>
  gives the total 4 and the factor 25, the scaled values are \<open>100\<close>, \<open>5 * 10^17\<close> and
  \<open>-5 * 10^17\<close>, and their total in double arithmetic is 128, because
  \<open>100 + 5 * 10^17\<close> is rounded to a multiple of 64. The residual \<open>-28\<close> is added to the
  textual key: the handler returns integers whose sum is 72.
\<close>

theorem handleSliderChange_zero_total_counterexample:
  "set_key (int_split 0 103 (- 3)) Graphical (Fin 3) \<noteq> int_split 0 0 0
   \<and> handleSliderChange (int_split 0 103 (- 3)) Graphical (Fin 3)
       = Inr \<lparr>textual = NaN, graphical = NaN, symbolical = NegInf\<rparr>
   \<and> \<not> is_integer (textual \<lparr>textual = NaN, graphical = NaN, symbolical = NegInf\<rparr>)
   \<and> total_of \<lparr>textual = NaN, graphical = NaN, symbolical = NegInf\<rparr> \<noteq> Fin 100
   \<and> handleSliderChange (int_split 100 20000000000000000 (- 20000000000000000)) Textual (Fin 4)
       = Inr (int_split 72 500000000000000000 (- 500000000000000000))
   \<and> (72 :: int) + 500000000000000000 + - 500000000000000000 \<noteq> 100"
  by (simp add: hsc_eval)

text \<open>
  Claim C1, amended: for every split and every edit of one key such that the three values
  after the edit are integers of magnitude at most \<open>10^12\<close> whose \<^emph>\<open>sum\<close> is not zero, the
  handler returns a triple of integers whose sum is exactly 100.
\<close>

theorem handleSliderChange_sum_100:
  assumes "set_key (int_split t g s) k (Fin (rat_of_int v)) = int_split t' g' s'"
      and "\<bar>t'\<bar> \<le> 10 ^ 12" "\<bar>g'\<bar> \<le> 10 ^ 12" "\<bar>s'\<bar> \<le> 10 ^ 12"
      and "t' + g' + s' \<noteq> 0"
  shows "\<exists>a b c. handleSliderChange (int_split t g s) k (Fin (rat_of_int v)) = Inr (int_split a b c)
           \<and> a + b + c = 100"
proof -
  have "handleSliderChange (int_split t g s) k (Fin (rat_of_int v)) = Inr (normalized k t' g' s')"
    using assms by (rule handleSliderChange_normalized)
  then show ?thesis using normalized_sum[of k t' g' s'] by auto
qed

text \<open>The example of the specification: \<open>(33, 33, 34)\<close>, textual moved to 60.\<close>

theorem handleSliderChange_sum_100_witness:
  "set_key (int_split 33 33 34) Textual (Fin (rat_of_int 60)) = int_split 60 33 34
   \<and> \<bar>60 :: int\<bar> \<le> 10 ^ 12 \<and> \<bar>33 :: int\<bar> \<le> 10 ^ 12 \<and> \<bar>34 :: int\<bar> \<le> 10 ^ 12
   \<and> (60 :: int) + 33 + 34 \<noteq> 0
   \<and> (\<exists>a b c. handleSliderChange (int_split 33 33 34) Textual (Fin (rat_of_int 60))
          = Inr (int_split a b c) \<and> a + b + c = 100)"
proof -
  have h: "set_key (int_split 33 33 34) Textual (Fin (rat_of_int 60)) = int_split 60 33 34"
    by (simp add: int_split_def)
  have b: "\<bar>60 :: int\<bar> \<le> 10 ^ 12" "\<bar>33 :: int\<bar> \<le> 10 ^ 12" "\<bar>34 :: int\<bar> \<le> 10 ^ 12"
    and n: "(60 :: int) + 33 + 34 \<noteq> 0" by simp_all
  show ?thesis using h b n handleSliderChange_sum_100[OF h b n] by blast
qed

text \<open>
  Claim C2, as stated, fails. On the split \<open>(45, 27, 28)\<close>, reached above from the initial
  state, moving the symbolical slider to \<open>0\<close> gives the total 72 and the factor
  \<open>100 / 72\<close>; the products round to 63 and 38, the rounded total is 101, and the
  residual \<open>-1\<close> is added to the edited key, which held 0. When the values after the edit
  are all zero, the three results are \<open>NaN\<close>, which is no integer. And on non-negative
  integers beyond \<open>2^52\<close>, which the function accepts although the sliders do not lead to
  them, the rounding of the products can push the edited key below zero even when its new
  value is positive: the third example returns \<open>(-1, 64, 37)\<close>.
\<close>

theorem handleSliderChange_negative_counterexample:
  "handleSliderChange (int_split 45 27 28) Symbolical (Fin 0) = Inr (int_split 63 38 (- 1))
   \<and> \<not> js_le (Fin 0) (symbolical (int_split 63 38 (- 1)))
   \<and> handleSliderChange (int_split 0 0 100) Symbolical (Fin 0)
       = Inr \<lparr>textual = NaN, graphical = NaN, symbolical = NaN\<rparr>
   \<and> \<not> is_integer NaN
   \<and> handleSliderChange (int_split 49 6793243593281696 3904777813461132) Textual (Fin 1)
       = Inr (int_split (- 1) 64 37)
   \<and> \<not> js_le (Fin 0) (textual (int_split (- 1) 64 37))"
  by (simp add: hsc_eval)

text \<open>
  Claim C2, amended: for every split and edit such that the three values after the edit
  are non-negative integers of at most \<open>10^12\<close> that are not all zero, every value of the
  result is an integer, the two keys that were not edited are non-negative, and the
  residual correction leaves the edited key at \<open>-1\<close> or more; it leaves it non-negative
  whenever the new value is positive.
\<close>

theorem handleSliderChange_nonneg:
  assumes "set_key (int_split t g s) k (Fin (rat_of_int v)) = int_split t' g' s'"
      and "0 \<le> t'" "t' \<le> 10 ^ 12" "0 \<le> g'" "g' \<le> 10 ^ 12" "0 \<le> s'" "s' \<le> 10 ^ 12"
      and "t' + g' + s' \<noteq> 0"
  shows "\<exists>r. handleSliderChange (int_split t g s) k (Fin (rat_of_int v)) = Inr r
      \<and> is_integer (textual r) \<and> is_integer (graphical r) \<and> is_integer (symbolical r)
      \<and> (\<forall>k'. k' \<noteq> k \<longrightarrow> js_le (Fin 0) (get_key r k'))
      \<and> js_le (Fin (- 1)) (get_key r k)
      \<and> (0 < v \<longrightarrow> js_le (Fin 0) (get_key r k))"
proof -
  have kv: "case k of Textual \<Rightarrow> t' = v | Graphical \<Rightarrow> g' = v | Symbolical \<Rightarrow> s' = v"
    using assms(1) by (cases k) (simp_all add: int_split_def)
  have B: "\<bar>t'\<bar> \<le> 10 ^ 12" "\<bar>g'\<bar> \<le> 10 ^ 12" "\<bar>s'\<bar> \<le> 10 ^ 12" using assms by simp_all
  have h: "handleSliderChange (int_split t g s) k (Fin (rat_of_int v)) = Inr (normalized k t' g' s')"
    by (rule handleSliderChange_normalized[OF assms(1) B assms(8)])
  obtain a b c where n: "normalized k t' g' s' = int_split a b c"
    and b: "case k of Textual \<Rightarrow> - 1 \<le> a \<and> (0 < t' \<longrightarrow> 0 \<le> a) \<and> 0 \<le> b \<and> 0 \<le> c
                  | Graphical \<Rightarrow> 0 \<le> a \<and> - 1 \<le> b \<and> (0 < g' \<longrightarrow> 0 \<le> b) \<and> 0 \<le> c
                  | Symbolical \<Rightarrow> 0 \<le> a \<and> 0 \<le> b \<and> - 1 \<le> c \<and> (0 < s' \<longrightarrow> 0 \<le> c)"
    using normalized_nonneg[OF assms(2-8), of k] by blast
  have i: "is_integer (textual (int_split a b c))" "is_integer (graphical (int_split a b c))"
      "is_integer (symbolical (int_split a b c))"
    by (simp_all add: int_split_def is_integer_def)
  have o: "\<forall>k'. k' \<noteq> k \<longrightarrow> js_le (Fin 0) (get_key (int_split a b c) k')"
  proof (intro allI impI)
    fix k' assume "k' \<noteq> k"
    then show "js_le (Fin 0) (get_key (int_split a b c) k')"
      using b by (cases k; cases k') (simp_all add: int_split_def)
  qed
  have m: "js_le (Fin (- 1)) (get_key (int_split a b c) k)"
    using b by (cases k) (simp_all add: int_split_def)
  have p: "0 < v \<longrightarrow> js_le (Fin 0) (get_key (int_split a b c) k)"
    using b kv by (cases k) (simp_all add: int_split_def)
  show ?thesis unfolding h n using i o m p by blast
qed

theorem handleSliderChange_nonneg_witness:
  "set_key (int_split 33 33 34) Textual (Fin (rat_of_int 60)) = int_split 60 33 34
   \<and> (0::int) \<le> 60 \<and> (60::int) \<le> 10 ^ 12 \<and> (0::int) \<le> 33 \<and> (33::int) \<le> 10 ^ 12
   \<and> (0::int) \<le> 34 \<and> (34::int) \<le> 10 ^ 12 \<and> (60 :: int) + 33 + 34 \<noteq> 0
   \<and> (\<exists>r. handleSliderChange (int_split 33 33 34) Textual (Fin (rat_of_int 60)) = Inr r
      \<and> is_integer (textual r) \<and> is_integer (graphical r) \<and> is_integer (symbolical r)
      \<and> (\<forall>k'. k' \<noteq> Textual \<longrightarrow> js_le (Fin 0) (get_key r k'))
      \<and> js_le (Fin (- 1)) (get_key r Textual)
      \<and> ((0::int) < 60 \<longrightarrow> js_le (Fin 0) (get_key r Textual)))"
proof -
  have h: "set_key (int_split 33 33 34) Textual (Fin (rat_of_int 60)) = int_split 60 33 34"
    by (simp add: int_split_def)
  have b: "(0::int) \<le> 60" "(60::int) \<le> 10 ^ 12" "(0::int) \<le> 33" "(33::int) \<le> 10 ^ 12"
      "(0::int) \<le> 34" "(34::int) \<le> 10 ^ 12" and n: "(60 :: int) + 33 + 34 \<noteq> 0" by simp_all
  show ?thesis using h b n handleSliderChange_nonneg[OF h b n] by blast
qed

text \<open>
  Claim C3, as stated, fails: when the three values after the edit are all zero the
  division is \<open>100 / 0 = Infinity\<close>, every product \<open>0 * Infinity\<close> is \<open>NaN\<close>, and the
  handler returns normally with the triple \<open>(NaN, NaN, NaN)\<close>. Nothing is raised.
\<close>

theorem handleSliderChange_all_zero_counterexample:
  "set_key (int_split 100 0 0) Textual (Fin 0) = int_split 0 0 0
   \<and> handleSliderChange (int_split 100 0 0) Textual (Fin 0)
       = Inr \<lparr>textual = NaN, graphical = NaN, symbolical = NaN\<rparr>
   \<and> handleSliderChange (int_split 100 0 0) Textual (Fin 0) \<noteq> Inl DivideByZero"
  by (simp add: handleSliderChange_def int_split_def total_of_def scale_all_def js_neq_def
      js_sub_def Let_def inf_of_sign_def fl_def)

text \<open>
  Claim C3, amended: when the three values after the edit are all zero, the handler raises
  no error; it returns the triple whose three values are \<open>NaN\<close>.
\<close>

theorem handleSliderChange_all_zero:
  assumes "set_key priorities k v = int_split 0 0 0"
  shows "handleSliderChange priorities k v
       = Inr \<lparr>textual = NaN, graphical = NaN, symbolical = NaN\<rparr>"
  unfolding handleSliderChange_def assms
  by (cases k) (simp_all add: int_split_def total_of_def scale_all_def js_neq_def
      js_sub_def Let_def inf_of_sign_def fl_def)

theorem handleSliderChange_all_zero_witness:
  "set_key (int_split 100 0 0) Textual (Fin 0) = int_split 0 0 0
   \<and> handleSliderChange (int_split 100 0 0) Textual (Fin 0)
       = Inr \<lparr>textual = NaN, graphical = NaN, symbolical = NaN\<rparr>"
proof -
  have h: "set_key (int_split 100 0 0) Textual (Fin 0) = int_split 0 0 0"
    by (simp add: int_split_def)
  show ?thesis using h handleSliderChange_all_zero[OF h] by blast
qed

text \<open>
  Claim C4, as stated, fails. The split \<open>(100, 83333333333333344, -83333333333333344)\<close> is
  reached above by twelve slider moves; its values are integers and sum to 100. The
  handler adds them in double arithmetic: \<open>100 + 83333333333333344\<close> is rounded to a
  multiple of 16, the total it finds is 96, and it rescales. Setting the textual key to the
  100 it holds returns another triple.
\<close>

theorem handleSliderChange_idempotent_counterexample:
  "(100 :: int) + 83333333333333344 + - 83333333333333344 = 100
   \<and> total_of (int_split 100 83333333333333344 (- 83333333333333344)) = Fin 96
   \<and> handleSliderChange (int_split 100 83333333333333344 (- 83333333333333344)) Textual
        (get_key (int_split 100 83333333333333344 (- 83333333333333344)) Textual)
       = Inr (int_split 92 86805555555555568 (- 86805555555555568))
   \<and> int_split 92 86805555555555568 (- 86805555555555568)
       \<noteq> int_split 100 83333333333333344 (- 83333333333333344)"
  by (simp add: hsc_eval)

text \<open>
  Claim C4, amended: on a triple whose total, as the handler computes it (the three values
  added from the left in double arithmetic), is 100, an edit that sets a key to the value
  it holds returns the same triple; and every triple of integers of magnitude at most
  \<open>10^15\<close> that sum to 100 is such a triple.
\<close>

theorem handleSliderChange_idempotent:
  "(total_of p = Fin 100 \<longrightarrow> handleSliderChange p k (get_key p k) = Inr p)
   \<and> (\<bar>t\<bar> \<le> 10 ^ 15 \<and> \<bar>g\<bar> \<le> 10 ^ 15 \<and> \<bar>s\<bar> \<le> 10 ^ 15 \<and> t + g + s = 100 \<longrightarrow>
        total_of (int_split t g s) = Fin 100
        \<and> handleSliderChange (int_split t g s) k' (get_key (int_split t g s) k')
            = Inr (int_split t g s))"
proof -
  have a: "handleSliderChange q j (get_key q j) = Inr q" if "total_of q = Fin 100" for q j
  proof -
    have "set_key q j (get_key q j) = q" by (cases j) simp_all
    then show ?thesis using that by (simp add: handleSliderChange_def js_neq_def)
  qed
  have b: "total_of (int_split t g s) = Fin 100"
    if "\<bar>t\<bar> \<le> 10 ^ 15 \<and> \<bar>g\<bar> \<le> 10 ^ 15 \<and> \<bar>s\<bar> \<le> 10 ^ 15 \<and> t + g + s = 100"
    using that total_int_split[of t g s] by simp
  show ?thesis using a b by blast
qed

text \<open>The state the component starts in.\<close>

theorem handleSliderChange_idempotent_witness:
  "total_of initial_priorities = Fin 100
   \<and> handleSliderChange initial_priorities Graphical (get_key initial_priorities Graphical)
       = Inr initial_priorities
   \<and> \<bar>33 :: int\<bar> \<le> 10 ^ 15 \<and> \<bar>34 :: int\<bar> \<le> 10 ^ 15 \<and> (33 :: int) + 33 + 34 = 100
   \<and> total_of (int_split 33 33 34) = Fin 100
   \<and> handleSliderChange (int_split 33 33 34) Textual (get_key (int_split 33 33 34) Textual)
       = Inr (int_split 33 33 34)"
proof -
  have h: "total_of initial_priorities = Fin 100"
    by (simp add: total_of_def initial_priorities_def fl_eval)
  have b: "\<bar>33 :: int\<bar> \<le> 10 ^ 15 \<and> \<bar>33 :: int\<bar> \<le> 10 ^ 15 \<and> \<bar>34 :: int\<bar> \<le> 10 ^ 15
      \<and> (33 :: int) + 33 + 34 = 100" by simp
  show ?thesis
    using h b handleSliderChange_idempotent[of initial_priorities Graphical 33 33 34 Textual]
    by blast
qed

section \<open>Properties of the matcher\<close>

lemma in_ms_Seq:
  "st' \<in> set (ms (Seq a b) s st) \<longleftrightarrow> (\<exists>mid \<in> set (ms a s st). st' \<in> set (ms b s mid))"
  by (auto simp: ms.simps)

lemma in_ms_StarD:
  "st' \<in> set (ms (Star a) s (i, k)) \<Longrightarrow>
     st' = (i, k) \<or> (\<exists>j k'. (j, k') \<in> set (ms a s (i, k)) \<and> i < j \<and> j \<le> length s
                        \<and> st' \<in> set (ms (Star a) s (j, k')))"
proof -
  have "set (ms (Star a) s (i, k)) =
      set (concat (map (\<lambda>(j, k'). if i < j \<and> j \<le> length s then ms (Star a) s (j, k') else [])
                 (ms a s (i, k)))) \<union> {(i, k)}"
    by (subst ms.simps) simp
  then show "st' \<in> set (ms (Star a) s (i, k)) \<Longrightarrow> ?thesis" by (auto split: if_splits)
qed

lemma in_ms_LazyStarD:
  "st' \<in> set (ms (LazyStar a) s (i, k)) \<Longrightarrow>
     st' = (i, k) \<or> (\<exists>j k'. (j, k') \<in> set (ms a s (i, k)) \<and> i < j \<and> j \<le> length s
                        \<and> st' \<in> set (ms (LazyStar a) s (j, k')))"
proof -
  have "set (ms (LazyStar a) s (i, k)) =
      set (concat (map (\<lambda>(j, k'). if i < j \<and> j \<le> length s then ms (LazyStar a) s (j, k') else [])
                 (ms a s (i, k)))) \<union> {(i, k)}"
    by (subst ms.simps) simp
  then show "st' \<in> set (ms (LazyStar a) s (i, k)) \<Longrightarrow> ?thesis" by (auto split: if_splits)
qed

lemma ms_bounds:
  "st' \<in> set (ms r s st) \<Longrightarrow> fst st \<le> fst st' \<and> (fst st \<le> length s \<longrightarrow> fst st' \<le> length s)"
proof (induction r s st arbitrary: st' rule: ms.induct)
  case (1 s st)
  then show ?case by (simp add: ms.simps)
next
  case (2 c s i k)
  then show ?case by (simp add: ms.simps split: if_splits)
next
  case (3 p s i k)
  then show ?case by (simp add: ms.simps split: if_splits)
next
  case (4 a b s st)
  from "4.prems" obtain mid where m: "mid \<in> set (ms a s st)" and e: "st' \<in> set (ms b s mid)"
    unfolding in_ms_Seq by blast
  from "4.IH"(1)[OF m] "4.IH"(2)[OF m e] show ?case by auto
next
  case (5 a b s st)
  from "5.prems" have "st' \<in> set (ms a s st) \<or> st' \<in> set (ms b s st)" by (simp add: ms.simps)
  with "5.IH" show ?case by blast
next
  case (6 a s i k)
  from "6.prems" have "st' \<in> set (ms a s (i, k)) \<or> st' = (i, k)" by (auto simp: ms.simps)
  then show ?case
  proof
    assume "st' \<in> set (ms a s (i, k))"
    from "6.IH"[OF this] show ?thesis .
  next
    assume "st' = (i, k)"
    then show ?thesis by simp
  qed
next
  case (7 a s i k)
  from "7.prems" consider "st' = (i, k)"
    | j k' where "(j, k') \<in> set (ms a s (i, k))" "i < j" "j \<le> length s"
        "st' \<in> set (ms (Star a) s (j, k'))"
    using in_ms_StarD by blast
  then show ?case
  proof cases
    case 1
    then show ?thesis by simp
  next
    case 2
    have "fst (j, k') \<le> fst st' \<and> (fst (j, k') \<le> length s \<longrightarrow> fst st' \<le> length s)"
      using 2 by (intro "7.IH"(2)) auto
    with 2 show ?thesis by simp
  qed
next
  case (8 a s i k)
  from "8.prems" consider "st' = (i, k)"
    | j k' where "(j, k') \<in> set (ms a s (i, k))" "i < j" "j \<le> length s"
        "st' \<in> set (ms (LazyStar a) s (j, k'))"
    using in_ms_LazyStarD by blast
  then show ?case
  proof cases
    case 1
    then show ?thesis by simp
  next
    case 2
    have "fst (j, k') \<le> fst st' \<and> (fst (j, k') \<le> length s \<longrightarrow> fst st' \<le> length s)"
      using 2 by (intro "8.IH"(2)) auto
    with 2 show ?thesis by simp
  qed
next
  case (9 a s i k)
  from "9.prems" obtain x where x: "x \<in> set (ms a s (i, k))" and e: "fst st' = fst x"
    by (auto simp: ms.simps)
  from "9.IH"[OF x] e show ?case by simp
next
  case (10 a s i k)
  show ?case
  proof (cases "ms a s (i, k)")
    case Nil
    with "10.prems" show ?thesis by (simp add: ms.simps)
  next
    case (Cons x xs)
    with "10.prems" have "fst st' = i" by (cases x) (auto simp: ms.simps)
    then show ?thesis by simp
  qed
next
  case (11 s i k)
  then show ?case by (simp add: ms.simps split: if_splits)
qed

lemma ms_consuming:
  "consuming r \<Longrightarrow> st' \<in> set (ms r s st) \<Longrightarrow> fst st < fst st'"
proof (induction r arbitrary: st st')
  case (Seq a b)
  from Seq.prems(2) obtain mid where m: "mid \<in> set (ms a s st)" and e: "st' \<in> set (ms b s mid)"
    unfolding in_ms_Seq by blast
  from ms_bounds[OF m] ms_bounds[OF e] Seq.IH(1)[OF _ m] Seq.IH(2)[OF _ e] Seq.prems(1)
  show ?case by auto
next
  case (Group a)
  obtain i k where st: "st = (i, k)" by (cases st)
  from Group.prems(2) obtain x where "x \<in> set (ms a s st)" "fst st' = fst x"
    unfolding st by (auto simp: ms.simps)
  with Group.IH[OF _ \<open>x \<in> set (ms a s st)\<close>] Group.prems(1) show ?case by simp
next
  case (Lit c)
  then show ?case by (cases st) (auto simp: ms.simps split: if_splits)
next
  case (Cls p)
  then show ?case by (cases st) (auto simp: ms.simps split: if_splits)
next
  case (Alt a b)
  from Alt.prems(2) have "st' \<in> set (ms a s st) \<or> st' \<in> set (ms b s st)"
    by (simp add: ms.simps)
  moreover from Alt.prems(1) have "consuming a" "consuming b" by simp_all
  ultimately show ?case using Alt.IH(1)[of st' st] Alt.IH(2)[of st' st] by blast
qed simp_all

lemma regex_exec_SomeD:
  "regex_exec r s i = Some m \<Longrightarrow>
     i \<le> index m \<and> index m \<le> length s
     \<and> (\<exists>c rest. ms r s (index m, None) = (lastIndex m, c) # rest
            \<and> group1 m = map_option (\<lambda>(a, b). substring s a b) c)
     \<and> whole m = substring s (index m) (lastIndex m)
     \<and> (\<forall>j. i \<le> j \<and> j < index m \<longrightarrow> ms r s (j, None) = [])"
proof (induction r s i rule: regex_exec.induct)
  case (1 r s i)
  show ?case
  proof (cases "ms r s (i, None)")
    case Nil
    with "1.prems" have le: "\<not> length s < i" and rec: "regex_exec r s (Suc i) = Some m"
      by (auto simp: regex_exec.simps[of r s i] split: if_splits)
    from "1.IH"[OF le Nil rec] Nil show ?thesis
      by (auto simp: le_Suc_eq less_Suc_eq_le dest: le_neq_implies_less)
  next
    case (Cons a list)
    with "1.prems" show ?thesis
      by (cases a) (auto simp: regex_exec.simps[of r s i] split: if_splits)
  qed
qed

lemma regex_exec_None_iff:
  "regex_exec r s i = None \<longleftrightarrow> (\<forall>j. i \<le> j \<and> j \<le> length s \<longrightarrow> ms r s (j, None) = [])"
proof (induction r s i rule: regex_exec.induct)
  case (1 r s i)
  show ?case
  proof (cases "length s < i")
    case True
    then have "\<forall>j. i \<le> j \<and> j \<le> length s \<longrightarrow> ms r s (j, None) = []" by auto
    with True show ?thesis by (simp add: regex_exec.simps[of r s i])
  next
    case False
    show ?thesis
    proof (cases "ms r s (i, None)")
      case Nil
      have "(\<forall>j. i \<le> j \<and> j \<le> length s \<longrightarrow> ms r s (j, None) = [])
          \<longleftrightarrow> (\<forall>j. Suc i \<le> j \<and> j \<le> length s \<longrightarrow> ms r s (j, None) = [])"
      proof (intro iffI allI impI)
        fix j assume a: "\<forall>j. Suc i \<le> j \<and> j \<le> length s \<longrightarrow> ms r s (j, None) = []"
          and b: "i \<le> j \<and> j \<le> length s"
        show "ms r s (j, None) = []"
        proof (cases "j = i")
          case True then show ?thesis using Nil by simp
        next
          case False then show ?thesis using a b by auto
        qed
      qed auto
      with "1.IH"[OF False Nil] Nil False show ?thesis
        by (simp add: regex_exec.simps[of r s i])
    next
      case (Cons a list)
      with False show ?thesis
        by (cases a) (auto simp: regex_exec.simps[of r s i])
    qed
  qed
qed

lemma regex_exec_progress:
  assumes "consuming r" "regex_exec r s i = Some m"
  shows "i < lastIndex m \<and> lastIndex m \<le> length s \<and> index m < lastIndex m"
proof -
  from regex_exec_SomeD[OF assms(2)] obtain c rest where
    b: "i \<le> index m" "index m \<le> length s" and h: "ms r s (index m, None) = (lastIndex m, c) # rest"
    by blast
  then have "(lastIndex m, c) \<in> set (ms r s (index m, None))" by simp
  from ms_consuming[OF assms(1) this] ms_bounds[OF this] b show ?thesis by auto
qed

lemma exec_loop_matches:
  assumes "consuming r"
  shows "exec_loop uc text r ty i acc
       = Some (acc @ map (metric_of uc text ty) (matches_in_order r text i))"
  using assms
proof (induction r "text" i arbitrary: acc rule: matches_in_order.induct)
  case (1 r s i)
  note assms = "1.prems"
  show ?case
  proof (cases "regex_exec r s i")
    case None
    then show ?thesis
      by (simp add: exec_loop.simps[of uc s r ty i acc] matches_in_order.simps[of r s i])
  next
    case (Some m)
    from regex_exec_progress[OF assms Some] have g: "i < lastIndex m \<and> lastIndex m \<le> length s"
      by simp
    from "1.IH"[OF Some g assms] Some g show ?thesis
      by (simp add: exec_loop.simps[of uc s r ty i acc] matches_in_order.simps[of r s i])
  qed
qed

section \<open>Properties of the extractor\<close>

lemmas re_defs = percentage_re_def number_re_def Plus_def LazyPlus_def measurement_re_def lab_value_re_def
  title_re_def type_re_def section_tail_def methods_re_def findings_re_def

lemma consuming_patterns:
  "consuming measurement_re" "consuming percentage_re" "consuming lab_value_re"
  by (simp_all add: re_defs)

lemma extractMetrics_matches:
  "extractMetrics uc text = Some
     (map (metric_of uc text (str ''measurement'')) (matches_in_order measurement_re text 0)
      @ map (metric_of uc text (str ''percentage'')) (matches_in_order percentage_re text 0)
      @ map (metric_of uc text (str ''lab_value'')) (matches_in_order lab_value_re text 0))"
  by (simp add: extractMetrics_def patterns_def exec_loop_matches consuming_patterns)

lemma matches_in_order_sorted:
  assumes "consuming r"
  shows "sorted_wrt (\<lambda>a b. lastIndex a \<le> index b) (matches_in_order r s i)
       \<and> (\<forall>m \<in> set (matches_in_order r s i). i \<le> index m \<and> index m < lastIndex m
             \<and> lastIndex m \<le> length s)"
  using assms
proof (induction r s i rule: matches_in_order.induct)
  case (1 r s i)
  show ?case
  proof (cases "regex_exec r s i")
    case None
    then show ?thesis by (simp add: matches_in_order.simps[of r s i])
  next
    case (Some m)
    from regex_exec_progress[OF "1.prems" Some] have g: "i < lastIndex m \<and> lastIndex m \<le> length s"
      and p: "index m < lastIndex m" by simp_all
    from regex_exec_SomeD[OF Some] have im: "i \<le> index m" by simp
    have eq: "matches_in_order r s i = m # matches_in_order r s (lastIndex m)"
      using Some g by (simp add: matches_in_order.simps[of r s i])
    from "1.IH"[OF Some g "1.prems"] show ?thesis
      unfolding eq using g p im by auto
  qed
qed

lemma matches_in_order_are_matches:
  "m \<in> set (matches_in_order r s i) \<Longrightarrow> \<exists>j. regex_exec r s j = Some m"
proof (induction r s i rule: matches_in_order.induct)
  case (1 r s i)
  show ?case
  proof (cases "regex_exec r s i")
    case None
    with "1.prems" show ?thesis by (simp add: matches_in_order.simps[of r s i])
  next
    case (Some m')
    show ?thesis
    proof (cases "i < lastIndex m' \<and> lastIndex m' \<le> length s")
      case True
      with "1.prems" Some have "m = m' \<or> m \<in> set (matches_in_order r s (lastIndex m'))"
        by (simp add: matches_in_order.simps[of r s i])
      with "1.IH"[OF Some True] Some show ?thesis by blast
    next
      case False
      with "1.prems" Some have "m = m'" by (simp add: matches_in_order.simps[of r s i])
      with Some show ?thesis by blast
    qed
  qed
qed

lemma split_on_not_Nil [simp]: "split_on p s \<noteq> []"
  by (induction s) (auto split: list.splits)

lemma metric_of_label_fallback:
  assumes "trim (last (split_on (\<lambda>c. c \<in> {46, 44, 59, 58})
                     (substring text (index m - 50) (index m)))) = []"
  shows "label (metric_of uc text ty m) = capitalize uc ty"
proof -
  obtain x xs where "split_on (\<lambda>c. c \<in> {46, 44, 59, 58}) (substring text (index m - 50) (index m)) = x # xs"
    using split_on_not_Nil by (meson list.exhaust)
  with assms show ?thesis
    by (simp add: metric_of_def Let_def del: insert_iff)
qed

lemma capitalize_types:
  "capitalize uc (str ''measurement'') = str ''Measurement''"
  "capitalize uc (str ''percentage'') = str ''Percentage''"
  "capitalize uc (str ''lab_value'') = str ''Lab_value''"
  by (simp_all add: capitalize_def toUpperCase1_def str_def)

lemma exec_none_no_matches:
  "regex_exec r s i = None \<Longrightarrow> matches_in_order r s i = []"
  by (simp add: matches_in_order.simps[of r s i])

text \<open>
  Claim C5: for every input string the extractor returns, with a record of all five fields,
  and raises nothing; a field whose pattern finds no match holds its default: the two
  literals for title and type, the empty list for methods, findings and metrics. That the
  three \<open>while\<close> loops end is part of the statement: the result is \<open>Some\<close>.
\<close>

theorem processInitialData_total:
  "\<exists>r. processInitialData uc text = Some r
     \<and> (String_match text title_re = None \<longrightarrow> title r = str ''Research Study'')
     \<and> (String_match text type_re = None \<longrightarrow> type r = str ''Clinical Study'')
     \<and> (String_match text methods_re = None \<longrightarrow> methods r = [])
     \<and> (String_match text findings_re = None \<longrightarrow> findings r = [])
     \<and> ((\<forall>p \<in> set patterns. regex_exec (fst p) text 0 = None) \<longrightarrow> metrics r = [])"
proof -
  obtain ms where e: "extractMetrics uc text = Some ms"
    and z: "(\<forall>p \<in> set patterns. regex_exec (fst p) text 0 = None) \<longrightarrow> ms = []"
    by (simp add: extractMetrics_matches patterns_def exec_none_no_matches)
  show ?thesis
    unfolding processInitialData_def Let_def e using z
    by (simp add: capture_or_def sentences_of_def)
qed

section \<open>Closed forms of the repetitions\<close>

lemmas ms_safe = ms.simps(1-6) ms.simps(9-11)

lemma run_Suc: "i < length s \<Longrightarrow> p (s ! i) \<Longrightarrow> run p s i = Suc (run p s (Suc i))"
  by (simp add: run_def flip: Cons_nth_drop_Suc)

lemma run_0: "\<not> (i < length s \<and> p (s ! i)) \<Longrightarrow> run p s i = 0"
  by (cases "i < length s") (simp_all add: run_def flip: Cons_nth_drop_Suc)

lemma run_le: "i \<le> length s \<Longrightarrow> i + run p s i \<le> length s"
proof -
  assume "i \<le> length s"
  have "run p s i \<le> length (drop i s)" unfolding run_def by (rule length_takeWhile_le)
  then show ?thesis using \<open>i \<le> length s\<close> by simp
qed

lemma run_all: "x < run p s i \<Longrightarrow> p (s ! (i + x))"
proof -
  assume a: "x < run p s i"
  then have "takeWhile p (drop i s) ! x \<in> set (takeWhile p (drop i s))"
    unfolding run_def by (rule nth_mem)
  then have "p (takeWhile p (drop i s) ! x)" by (rule set_takeWhileD[THEN conjunct2, rotated -1]) 
  moreover have "takeWhile p (drop i s) ! x = drop i s ! x"
    using a unfolding run_def by (rule takeWhile_nth)
  moreover have "x < length (drop i s)"
    using a length_takeWhile_le[of p "drop i s"] unfolding run_def by linarith
  ultimately show ?thesis by simp
qed

lemma run_stop: "i + run p s i < length s \<Longrightarrow> \<not> p (s ! (i + run p s i))"
proof -
  assume a: "i + run p s i < length s"
  then have "run p s i < length (drop i s)" by simp
  then have "\<not> p (drop i s ! run p s i)"
    unfolding run_def by (rule nth_length_takeWhile)
  then show ?thesis using a by simp
qed

lemma ms_Star_Cls:
  "ms (Star (Cls p)) s (i, k) = map (\<lambda>j. (j, k)) (rev [i ..< Suc (i + run p s i)])"
proof (induction "length s - i" arbitrary: i rule: less_induct)
  case less
  show ?case
  proof (cases "i < length s \<and> p (s ! i)")
    case True
    then have r: "run p s i = Suc (run p s (Suc i))" by (simp add: run_Suc)
    have "ms (Star (Cls p)) s (i, k) = ms (Star (Cls p)) s (Suc i, k) @ [(i, k)]"
      using True by (subst ms.simps) (simp add: ms_safe)
    also have "ms (Star (Cls p)) s (Suc i, k)
        = map (\<lambda>j. (j, k)) (rev [Suc i ..< Suc (Suc i + run p s (Suc i))])"
      using True by (intro less) linarith
    finally show ?thesis unfolding r by (simp add: upt_rec[of i])
  next
    case False
    then have r: "run p s i = 0" by (rule run_0)
    have "ms (Star (Cls p)) s (i, k) = [(i, k)]"
      using False by (subst ms.simps) (auto simp: ms_safe)
    then show ?thesis unfolding r by simp
  qed
qed

lemma ms_LazyStar_Cls:
  "ms (LazyStar (Cls p)) s (i, k) = map (\<lambda>j. (j, k)) [i ..< Suc (i + run p s i)]"
proof (induction "length s - i" arbitrary: i rule: less_induct)
  case less
  show ?case
  proof (cases "i < length s \<and> p (s ! i)")
    case True
    then have r: "run p s i = Suc (run p s (Suc i))" by (simp add: run_Suc)
    have "ms (LazyStar (Cls p)) s (i, k) = (i, k) # ms (LazyStar (Cls p)) s (Suc i, k)"
      using True by (subst ms.simps) (simp add: ms_safe)
    also have "ms (LazyStar (Cls p)) s (Suc i, k)
        = map (\<lambda>j. (j, k)) [Suc i ..< Suc (Suc i + run p s (Suc i))]"
      using True by (intro less) linarith
    finally show ?thesis unfolding r by (simp add: upt_rec[of i])
  next
    case False
    then have r: "run p s i = 0" by (rule run_0)
    have "ms (LazyStar (Cls p)) s (i, k) = [(i, k)]"
      using False by (subst ms.simps) (auto simp: ms_safe)
    then show ?thesis unfolding r by simp
  qed
qed

lemma label_at_Cons:
  "label_at s i (c # cs) \<longleftrightarrow>
     i < length s \<and> canonicalize (s ! i) = canonicalize (of_char c) \<and> label_at s (Suc i) cs"
proof (cases "i < length s")
  case True
  then show ?thesis
    by (simp add: label_at_def str_def flip: Cons_nth_drop_Suc)
next
  case False
  then show ?thesis by (simp add: label_at_def str_def)
qed

lemma ms_lits:
  "ms (lits w) s (i, k) = (if label_at s i w then [(i + length w, k)] else [])"
proof (induction w arbitrary: i)
  case Nil
  show ?case by (simp add: ms_safe label_at_def str_def)
next
  case (Cons c cs)
  show ?case
    by (simp add: ms_safe Cons label_at_Cons)
qed

lemma concat_map_if:
  "concat (map (\<lambda>j. if P j then [f j] else []) xs) = map f (filter P xs)"
  by (induction xs) simp_all

lemma canonicalize_eq_nonletter:
  "c < 65 \<or> (90 < c \<and> c < 97) \<Longrightarrow> canonicalize x = canonicalize c \<longleftrightarrow> x = c"
  by (auto simp: canonicalize_def)

text \<open>The look-ahead \<open>(?=\n|$)\<close>: a newline stands at the position, or the text ends there.\<close>

lemma ms_Ahead_eol:
  "ms (Ahead (Alt (Lit 10) Eos)) s (j, c)
     = (if (j < length s \<and> s ! j = 10) \<or> j = length s then [(j, c)] else [])"
  by (auto simp: ms_safe canonicalize_eq_nonletter)

section \<open>Substrings, labels and runs\<close>

lemma in_set_substring:
  "c \<in> set (substring s i a) \<Longrightarrow> \<exists>x. i \<le> x \<and> x < a \<and> x < length s \<and> c = s ! x"
proof -
  assume "c \<in> set (substring s i a)"
  then obtain n where n: "n < length (take (a - i) (drop i s))" and c: "c = take (a - i) (drop i s) ! n"
    unfolding substring_def by (metis in_set_conv_nth)
  then have "n < a - i" "i + n < length s" by auto
  with c have "c = s ! (i + n)" by simp
  with \<open>n < a - i\<close> \<open>i + n < length s\<close> show ?thesis by (intro exI[of _ "i + n"]) auto
qed

lemma label_at_snoc:
  "label_at s i (w @ [c]) \<longleftrightarrow>
     label_at s i w \<and> i + length w < length s
     \<and> canonicalize (s ! (i + length w)) = canonicalize (of_char c)"
proof (induction w arbitrary: i)
  case Nil
  show ?case by (simp add: label_at_Cons) (simp add: label_at_def str_def)
next
  case (Cons a w)
  show ?case by (auto simp: label_at_Cons Cons)
qed

lemma substring_nth_mem:
  "a \<le> x \<Longrightarrow> x < b \<Longrightarrow> b \<le> length s \<Longrightarrow> s ! x \<in> set (substring s a b)"
proof -
  assume a: "a \<le> x" "x < b" "b \<le> length s"
  then have "x - a < length (substring s a b)" by (simp add: substring_def)
  moreover have "substring s a b ! (x - a) = s ! x" using a by (simp add: substring_def)
  ultimately show ?thesis by (metis nth_mem)
qed

lemma label_at_Nil [simp]: "label_at s i []"
  by (simp add: label_at_def str_def)

lemma run_ge:
  assumes "\<forall>x. i \<le> x \<and> x < q \<longrightarrow> p (s ! x)" "q \<le> length s" "i \<le> q"
  shows "q \<le> i + run p s i"
proof (rule ccontr)
  assume "\<not> ?thesis"
  then have lt: "i + run p s i < q" by simp
  with assms(2) have "i + run p s i < length s" by simp
  from run_stop[OF this] assms(1) lt show False by auto
qed

lemma ms_Seq_nonempty:
  "mid \<in> set (ms a s st) \<Longrightarrow> ms b s mid \<noteq> [] \<Longrightarrow> ms (Seq a b) s st \<noteq> []"
proof -
  assume m: "mid \<in> set (ms a s st)" and n: "ms b s mid \<noteq> []"
  then obtain y where "y \<in> set (ms b s mid)" by (cases "ms b s mid") auto
  with m have "y \<in> set (ms (Seq a b) s st)" unfolding in_ms_Seq by blast
  then show ?thesis by auto
qed

text \<open>The title pattern matches at the very start as soon as some code unit is not a newline.\<close>

lemma title_re_matches_at_0:
  assumes "q < length s" "s ! q \<noteq> 10"
  shows "ms title_re s (0, None) \<noteq> []"
proof -
  define q0 where "q0 = (LEAST x. x < length s \<and> s ! x \<noteq> 10)"
  have q0: "q0 < length s \<and> s ! q0 \<noteq> 10"
    unfolding q0_def using assms by (intro LeastI[of "\<lambda>x. x < length s \<and> s ! x \<noteq> 10" q]) simp
  have before: "\<forall>x. 0 \<le> x \<and> x < q0 \<longrightarrow> is_space (s ! x)"
  proof (intro allI impI)
    fix x assume x: "0 \<le> x \<and> x < q0"
    then have "\<not> (x < length s \<and> s ! x \<noteq> 10)"
      unfolding q0_def using not_less_Least by blast
    with x q0 have "s ! x = 10" by simp
    then show "is_space (s ! x)" by (simp add: is_space_def)
  qed
  have "q0 \<le> 0 + run is_space s 0" using before q0 by (intro run_ge) auto
  then have star: "(q0, None) \<in> set (ms (Star (Cls is_space)) s (0, None))"
    unfolding ms_Star_Cls by auto
  have grp: "ms (Group (Plus (Cls (\<lambda>c. c \<noteq> 10)))) s (q0, None) \<noteq> []"
    using q0 by (simp add: Plus_def ms_safe ms_Star_Cls)
  have 1: "ms (Seq (Star (Cls is_space)) (Group (Plus (Cls (\<lambda>c. c \<noteq> 10))))) s (0, None) \<noteq> []"
    using star grp by (rule ms_Seq_nonempty)
  have "(0, None) \<in> set (ms (Opt (Lit 58)) s (0, None))" by (simp add: ms.simps(6))
  from ms_Seq_nonempty[OF this 1]
  have 2: "ms (Seq (Opt (Lit 58)) (Seq (Star (Cls is_space))
        (Group (Plus (Cls (\<lambda>c. c \<noteq> 10)))))) s (0, None) \<noteq> []" .
  have "(0, None) \<in> set (ms (Opt (Alt (lits ''Title'') (lits ''Name''))) s (0, None))"
    by (simp add: ms.simps(6))
  from ms_Seq_nonempty[OF this 2] show ?thesis unfolding title_re_def .
qed

section \<open>The patterns as a search in the text\<close>

lemma first_some_append:
  "first_some f (xs @ ys) = (case first_some f xs of None \<Rightarrow> first_some f ys | Some y \<Rightarrow> Some y)"
  by (induction xs) (simp_all split: option.splits)

lemma first_some_concat_map:
  "first_some f (concat (map g xs)) = first_some (\<lambda>x. first_some f (g x)) xs"
  by (induction xs) (simp_all add: first_some_append split: option.splits)

lemma first_some_map: "first_some f (map g xs) = first_some (\<lambda>x. f (g x)) xs"
  by (induction xs) (simp_all split: option.splits)

lemma first_some_map_option:
  "first_some (\<lambda>x. map_option F (g x)) xs = map_option F (first_some g xs)"
  by (induction xs) (simp_all split: option.splits)

lemma first_some_SomeD: "first_some f xs = Some y \<Longrightarrow> \<exists>x \<in> set xs. f x = Some y"
  by (induction xs) (auto split: option.splits)

lemma first_some_None_iff: "first_some f xs = None \<longleftrightarrow> (\<forall>x \<in> set xs. f x = None)"
  by (induction xs) (auto split: option.splits)

lemma first_some_Some_Cons: "first_some Some (x # xs) = Some x"
  by simp

lemma ms_Seq_first:
  "first_some Some (ms (Seq a b) s st) = first_some (\<lambda>x. first_some Some (ms b s x)) (ms a s st)"
  by (simp add: ms.simps(4) first_some_concat_map)

lemma ms_Opt_colon:
  "ms (Opt (Lit 58)) s (j, k)
     = map (\<lambda>c. (c, k)) ((if j < length s \<and> s ! j = 58 then [Suc j] else []) @ [j])"
  by (auto simp: ms_safe canonicalize_eq_nonletter)

text \<open>After the label: the colon, the white space and what \<open>T\<close> captures.\<close>

lemma tail_first:
  assumes T: "\<And>a k. first_some Some (ms T s (a, k))
                 = map_option (\<lambda>(a, b). (b, Some (a, b))) (cap a)"
  shows "first_some Some (ms (Seq (Opt (Lit 58)) (Seq (Star (Cls is_space)) T)) s (j, k))
       = map_option (\<lambda>(a, b). (b, Some (a, b))) (first_some cap (starts_after s j))"
proof -
  let ?F = "\<lambda>(a, b). (b, Some (a :: nat, b :: nat))"
  let ?R = "Seq (Star (Cls is_space)) T"
  let ?cs = "(if j < length s \<and> s ! j = 58 then [Suc j] else []) @ [j]"
  have star: "first_some Some (ms ?R s (c, k))
      = map_option ?F (first_some cap (rev [c ..< Suc (c + run is_space s c)]))" for c
  proof -
    have "first_some Some (ms ?R s (c, k))
        = first_some (\<lambda>x. first_some Some (ms T s x)) (ms (Star (Cls is_space)) s (c, k))"
      by (rule ms_Seq_first)
    also have "\<dots> = first_some (\<lambda>a. map_option ?F (cap a)) (rev [c ..< Suc (c + run is_space s c)])"
      by (simp only: ms_Star_Cls first_some_map T)
    finally show ?thesis by (simp only: first_some_map_option)
  qed
  have "first_some Some (ms (Seq (Opt (Lit 58)) ?R) s (j, k))
      = first_some (\<lambda>x. first_some Some (ms ?R s x)) (ms (Opt (Lit 58)) s (j, k))"
    by (rule ms_Seq_first)
  also have "\<dots> = first_some (\<lambda>c. first_some Some (ms ?R s (c, k))) ?cs"
    by (simp only: ms_Opt_colon first_some_map)
  also have "\<dots> = first_some (\<lambda>c. map_option ?F
        (first_some cap (rev [c ..< Suc (c + run is_space s c)]))) ?cs"
    by (simp only: star)
  also have "\<dots> = map_option ?F
        (first_some (\<lambda>c. first_some cap (rev [c ..< Suc (c + run is_space s c)])) ?cs)"
    by (rule first_some_map_option)
  also have "\<dots> = map_option ?F (first_some cap (starts_after s j))"
    by (simp only: starts_after_def first_some_concat_map)
  finally show ?thesis .
qed

text \<open>The whole pattern, started at position \<open>i\<close>.\<close>

lemma labelled_first:
  assumes L: "\<And>i k. ms L s (i, k) = map (\<lambda>e. (e, k)) (label_ends s labels i)"
      and T: "\<And>a k. first_some Some (ms T s (a, k))
                 = map_option (\<lambda>(a, b). (b, Some (a, b))) (cap s a)"
  shows "first_some Some (ms (Seq L (Seq (Opt (Lit 58)) (Seq (Star (Cls is_space)) T))) s (i, k))
       = map_option (\<lambda>(a, b). (b, Some (a, b))) (labelled_at cap s labels i)"
proof -
  let ?F = "\<lambda>(a, b). (b, Some (a :: nat, b :: nat))"
  let ?R = "Seq (Opt (Lit 58)) (Seq (Star (Cls is_space)) T)"
  have "first_some Some (ms (Seq L ?R) s (i, k))
      = first_some (\<lambda>x. first_some Some (ms ?R s x)) (ms L s (i, k))"
    by (rule ms_Seq_first)
  also have "\<dots> = first_some (\<lambda>j. first_some Some (ms ?R s (j, k))) (label_ends s labels i)"
    by (simp only: L first_some_map)
  also have "\<dots> = first_some (\<lambda>j. map_option ?F (first_some (cap s) (starts_after s j)))
        (label_ends s labels i)"
    by (simp only: tail_first[of T s "cap s", OF T])
  also have "\<dots> = map_option ?F
        (first_some (\<lambda>j. first_some (cap s) (starts_after s j)) (label_ends s labels i))"
    by (rule first_some_map_option)
  also have "\<dots> = map_option ?F (labelled_at cap s labels i)"
    by (simp only: labelled_at_def first_some_concat_map)
  finally show ?thesis .
qed

text \<open>The search of \<open>exec\<close> for the first position at which the pattern matches.\<close>

lemma regex_exec_first:
  "regex_exec r s i
     = first_some (\<lambda>j. map_option
                     (\<lambda>(e, c). \<lparr>index = j, whole = substring s j e,
                                group1 = map_option (\<lambda>(a, b). substring s a b) c, lastIndex = e\<rparr>)
                     (first_some Some (ms r s (j, None))))
         [i ..< Suc (length s)]"
proof (induction r s i rule: regex_exec.induct)
  case (1 r s i)
  show ?case
  proof (cases "length s < i")
    case True
    then show ?thesis by (simp add: regex_exec.simps[of r s i])
  next
    case False
    then have u: "[i ..< Suc (length s)] = i # [Suc i ..< Suc (length s)]"
      by (intro upt_conv_Cons) simp
    show ?thesis
    proof (cases "ms r s (i, None)")
      case Nil
      from "1.IH"[OF False Nil] Nil False show ?thesis
        unfolding u by (simp add: regex_exec.simps[of r s i])
    next
      case (Cons y ys)
      with False show ?thesis
        unfolding u by (cases y) (simp add: regex_exec.simps[of r s i])
    qed
  qed
qed

lemma bind_first_some_group1:
  "Option.bind
     (first_some (\<lambda>j. map_option
                     (\<lambda>(e, c). \<lparr>index = j, whole = substring s j e,
                                group1 = map_option (\<lambda>(a, b). substring s a b) c, lastIndex = e\<rparr>)
                     (map_option (\<lambda>(a, b). (b, Some (a, b))) (h j))) xs)
     group1
   = map_option (\<lambda>(a, b). substring s a b) (first_some h xs)"
  by (induction xs) (auto split: option.splits)

text \<open>What the first capture group of a match of the whole pattern holds.\<close>

lemma String_match_group1:
  assumes L: "\<And>i k. ms L s (i, k) = map (\<lambda>e. (e, k)) (label_ends s labels i)"
      and T: "\<And>a k. first_some Some (ms T s (a, k))
                 = map_option (\<lambda>(a, b). (b, Some (a, b))) (cap s a)"
  shows "Option.bind (String_match s (Seq L (Seq (Opt (Lit 58)) (Seq (Star (Cls is_space)) T)))) group1
       = map_option (\<lambda>(a, b). substring s a b) (first_labelled cap s labels)"
  unfolding String_match_def regex_exec_first labelled_first[of L s labels T cap, OF L T]
    first_labelled_def
  by (rule bind_first_some_group1)

text \<open>The label parts of the four patterns.\<close>

lemma label_ends_Cons:
  "label_ends s (w # ws) i = (if label_at s i w then [i + length w] else []) @ label_ends s ws i"
  by (simp add: label_ends_def)

lemma label_ends_Nil: "label_ends s [] i = []"
  by (simp add: label_ends_def)

lemma ms_lits_labels: "ms (lits w) s (i, k) = map (\<lambda>e. (e, k)) (label_ends s [w] i)"
  by (simp add: ms_lits label_ends_Cons label_ends_Nil del: lits.simps)

lemma ms_lits_opt_s:
  "ms (Seq (lits w) (Opt (Lit 115))) s (i, k) = map (\<lambda>e. (e, k)) (label_ends s [w @ ''s'', w] i)"
  by (auto simp: ms.simps(4) ms_lits ms.simps(6) ms.simps(2) label_ends_Cons label_ends_Nil
      label_at_snoc simp del: lits.simps)

lemma label_ends_append: "label_ends s (xs @ ys) i = label_ends s xs i @ label_ends s ys i"
  by (simp add: label_ends_def)

lemma ms_methods_labels:
  "ms (Alt (Seq (lits ''Method'') (Opt (Lit 115))) (lits ''Protocol'')) s (i, k)
     = map (\<lambda>e. (e, k)) (label_ends s [''Methods'', ''Method'', ''Protocol''] i)"
proof -
  have "label_ends s [''Methods'', ''Method'', ''Protocol''] i
      = label_ends s [''Method'' @ ''s'', ''Method''] i @ label_ends s [''Protocol''] i"
    unfolding label_ends_append[symmetric] by simp
  then show ?thesis
    unfolding ms.simps(5) ms_lits_opt_s ms_lits_labels by simp
qed

lemma ms_findings_labels:
  "ms (Alt (Seq (lits ''Result'') (Opt (Lit 115))) (Seq (lits ''Finding'') (Opt (Lit 115)))) s (i, k)
     = map (\<lambda>e. (e, k)) (label_ends s [''Results'', ''Result'', ''Findings'', ''Finding''] i)"
proof -
  have "label_ends s [''Results'', ''Result'', ''Findings'', ''Finding''] i
      = label_ends s [''Result'' @ ''s'', ''Result''] i @ label_ends s [''Finding'' @ ''s'', ''Finding''] i"
    unfolding label_ends_append[symmetric] by simp
  then show ?thesis
    unfolding ms.simps(5) ms_lits_opt_s by simp
qed

lemma ms_title_labels:
  "ms (Opt (Alt (lits ''Title'') (lits ''Name''))) s (i, k)
     = map (\<lambda>e. (e, k)) (label_ends s [''Title'', ''Name'', ''''] i)"
  unfolding ms.simps(5,6) ms_lits_labels
  by (simp add: label_ends_Cons label_ends_Nil)

lemma ms_type_labels:
  "ms (Alt (lits ''study type'') (lits ''design'')) s (i, k)
     = map (\<lambda>e. (e, k)) (label_ends s [''study type'', ''design''] i)"
proof -
  have "label_ends s [''study type'', ''design''] i
      = label_ends s [''study type''] i @ label_ends s [''design''] i"
    unfolding label_ends_append[symmetric] by simp
  then show ?thesis
    unfolding ms.simps(5) ms_lits_labels by simp
qed

text \<open>The capturing parts.\<close>

lemma value_first:
  "first_some Some (ms (Group (Plus (Cls p))) s (a, k))
     = map_option (\<lambda>(a, b). (b, Some (a, b))) (value_at p s a)"
proof (cases "a < length s \<and> p (s ! a)")
  case True
  then have r: "run p s a = Suc (run p s (Suc a))" by (simp add: run_Suc)
  have "ms (Group (Plus (Cls p))) s (a, k)
      = map (\<lambda>j. (j, Some (a, j))) (rev [Suc a ..< Suc (Suc a + run p s (Suc a))])"
    using True by (simp add: Plus_def ms_safe ms_Star_Cls comp_def rev_map)
  also have "\<dots> = (a + run p s a, Some (a, a + run p s a))
      # map (\<lambda>j. (j, Some (a, j))) (rev [Suc a ..< a + run p s a])"
    unfolding r by simp
  finally show ?thesis using True by (simp add: value_at_def)
next
  case False
  then have "ms (Group (Plus (Cls p))) s (a, k) = []" by (auto simp: Plus_def ms_safe)
  with False show ?thesis by (auto simp: value_at_def)
qed

lemma first_some_Some_map: "first_some Some (map g xs) = map_option g (first_some Some xs)"
  by (cases xs) simp_all

lemma first_filter_upt:
  assumes "m \<le> q" "P q" "\<forall>x. m \<le> x \<and> x < q \<longrightarrow> \<not> P x"
  shows "first_some Some (filter P [m ..< n]) = (if q < n then Some q else None)"
proof (cases "q < n")
  case True
  have "[m ..< n] = [m ..< q] @ q # [Suc q ..< n]"
    using assms(1) True by (metis le_add_diff_inverse less_imp_le_nat upt_add_eq_append upt_conv_Cons)
  moreover have "filter P [m ..< q] = []" using assms(3) by (auto simp: filter_empty_conv)
  ultimately show ?thesis using True assms(2) by simp
next
  case False
  then have "filter P [m ..< n] = []" using assms(3) by (auto simp: filter_empty_conv)
  with False show ?thesis by simp
qed

lemma line_end_props:
  assumes "j \<le> length s"
  shows "j \<le> line_end s j" "line_end s j \<le> length s"
    "line_end s j < length s \<Longrightarrow> s ! line_end s j = 10"
    "\<forall>x. j \<le> x \<and> x < line_end s j \<longrightarrow> s ! x \<noteq> 10"
proof -
  show "j \<le> line_end s j" by (simp add: line_end_def)
  show "line_end s j \<le> length s" unfolding line_end_def using assms by (rule run_le)
  show "line_end s j < length s \<Longrightarrow> s ! line_end s j = 10"
    unfolding line_end_def using run_stop[of j "\<lambda>c. c \<noteq> 10" s] by simp
  show "\<forall>x. j \<le> x \<and> x < line_end s j \<longrightarrow> s ! x \<noteq> 10"
  proof (intro allI impI)
    fix x assume "j \<le> x \<and> x < line_end s j"
    then have "x - j < run (\<lambda>c. c \<noteq> 10) s j" "x = j + (x - j)" by (auto simp: line_end_def)
    then show "s ! x \<noteq> 10" using run_all[of "x - j" "\<lambda>c. c \<noteq> 10" s j] by simp
  qed
qed

lemma content_first:
  "first_some Some (ms (Seq (Group (LazyPlus (Cls (\<lambda>c. c \<noteq> 35)))) (Ahead (Alt (Lit 10) Eos))) s (a, k))
     = map_option (\<lambda>(a, b). (b, Some (a, b))) (content_at s a)"
proof (cases "a < length s \<and> s ! a \<noteq> 35")
  case False
  then have "ms (Seq (Group (LazyPlus (Cls (\<lambda>c. c \<noteq> 35)))) (Ahead (Alt (Lit 10) Eos))) s (a, k) = []"
    by (auto simp: LazyPlus_def ms_safe)
  moreover have "content_at s a = None"
  proof (cases "a < length s")
    case True
    with False have h: "s ! a = 35" by simp
    have "Suc a \<le> length s" using True by simp
    from line_end_props(1,2)[OF this] have "a < line_end s (Suc a)" "line_end s (Suc a) \<le> length s"
      by simp_all
    then have "s ! a \<in> set (substring s a (line_end s (Suc a)))"
      by (intro substring_nth_mem) simp_all
    with h show ?thesis by (simp add: content_at_def)
  next
    case False
    then show ?thesis by (simp add: content_at_def)
  qed
  ultimately show ?thesis by simp
next
  case c: True
  let ?p = "\<lambda>c. c \<noteq> (35 :: nat)"
  let ?eol = "\<lambda>j. (j < length s \<and> s ! j = 10) \<or> j = length s"
  define n where "n = Suc (Suc a + run ?p s (Suc a))"
  define e where "e = line_end s (Suc a)"
  have sa: "Suc a \<le> length s" using c by simp
  note le = line_end_props[OF sa, folded e_def]
  have g: "ms (Group (LazyPlus (Cls ?p))) s (a, k) = map (\<lambda>j. (j, Some (a, j))) [Suc a ..< n]"
    unfolding n_def using c by (simp add: LazyPlus_def ms_safe ms_LazyStar_Cls comp_def del: upt_Suc)
  have "ms (Seq (Group (LazyPlus (Cls ?p))) (Ahead (Alt (Lit 10) Eos))) s (a, k)
      = concat (map (\<lambda>j. if ?eol j then [(j, Some (a, j))] else []) [Suc a ..< n])"
    unfolding ms.simps(4) g by (simp add: comp_def ms_Ahead_eol del: upt_Suc)
  also have "\<dots> = map (\<lambda>j. (j, Some (a, j))) (filter ?eol [Suc a ..< n])"
    by (rule concat_map_if)
  finally have m: "first_some Some (ms (Seq (Group (LazyPlus (Cls ?p))) (Ahead (Alt (Lit 10) Eos))) s (a, k))
      = map_option (\<lambda>j. (j, Some (a, j))) (first_some Some (filter ?eol [Suc a ..< n]))"
    by (simp only: first_some_Some_map)
  have eol: "?eol e" using le(2,3) by (cases "e < length s") auto
  have before: "\<forall>x. Suc a \<le> x \<and> x < e \<longrightarrow> \<not> ?eol x" using le(2,4) by auto
  have f: "first_some Some (filter ?eol [Suc a ..< n]) = (if e < n then Some e else None)"
    using le(1) eol before by (rule first_filter_upt)
  have iff: "e < n \<longleftrightarrow> 35 \<notin> set (substring s a e)"
  proof
    assume "e < n"
    then have en: "e \<le> Suc a + run ?p s (Suc a)" by (simp add: n_def)
    show "35 \<notin> set (substring s a e)"
    proof
      assume "35 \<in> set (substring s a e)"
      then obtain x where x: "a \<le> x" "x < e" "35 = s ! x" using in_set_substring by blast
      show False
      proof (cases "x = a")
        case True with x c show ?thesis by simp
      next
        case False
        with x en have "x - Suc a < run ?p s (Suc a)" "x = Suc a + (x - Suc a)" by auto
        then have "s ! x \<noteq> 35" using run_all[of "x - Suc a" ?p s "Suc a"] by simp
        with x show ?thesis by simp
      qed
    qed
  next
    assume h: "35 \<notin> set (substring s a e)"
    have "\<forall>x. Suc a \<le> x \<and> x < e \<longrightarrow> s ! x \<noteq> 35"
    proof (intro allI impI)
      fix x assume "Suc a \<le> x \<and> x < e"
      then have "s ! x \<in> set (substring s a e)" using le(2) by (intro substring_nth_mem) simp_all
      with h show "s ! x \<noteq> 35" by auto
    qed
    then have "e \<le> Suc a + run ?p s (Suc a)" using le(1,2) by (intro run_ge) simp_all
    then show "e < n" by (simp add: n_def)
  qed
  show ?thesis unfolding m f using c iff by (simp add: content_at_def e_def)
qed

text \<open>The four patterns of \<open>processInitialData\<close>.\<close>

lemma methods_group1:
  "Option.bind (String_match s methods_re) group1
     = map_option (\<lambda>(a, b). substring s a b)
         (first_labelled content_at s [''Methods'', ''Method'', ''Protocol''])"
  unfolding methods_re_def section_tail_def
  by (rule String_match_group1[OF ms_methods_labels content_first])

lemma findings_group1:
  "Option.bind (String_match s findings_re) group1
     = map_option (\<lambda>(a, b). substring s a b)
         (first_labelled content_at s [''Results'', ''Result'', ''Findings'', ''Finding''])"
  unfolding findings_re_def section_tail_def
  by (rule String_match_group1[OF ms_findings_labels content_first])

lemma title_group1:
  "Option.bind (String_match s title_re) group1
     = map_option (\<lambda>(a, b). substring s a b)
         (first_labelled (value_at (\<lambda>c. c \<noteq> 10)) s [''Title'', ''Name'', ''''])"
  unfolding title_re_def
  by (rule String_match_group1[OF ms_title_labels value_first])

lemma type_group1:
  "Option.bind (String_match s type_re) group1
     = map_option (\<lambda>(a, b). substring s a b)
         (first_labelled (value_at (\<lambda>c. c \<noteq> 10 \<and> c \<noteq> 46 \<and> c \<noteq> 44)) s [''study type'', ''design''])"
  unfolding type_re_def
  by (rule String_match_group1[OF ms_type_labels value_first])

lemma capture_or_bind:
  "capture_or m d = (case Option.bind m group1 of None \<Rightarrow> d
                     | Some g \<Rightarrow> if trim g = [] then d else trim g)"
  by (cases m) (simp_all add: capture_or_def split: option.splits)

lemma sentences_of_bind:
  "sentences_of m = (case Option.bind m group1 of None \<Rightarrow> []
                     | Some g \<Rightarrow> filter (\<lambda>f. 10 < length f)
                                  (map trim (split_on (\<lambda>c. c \<in> {46, 59}) g)))"
proof -
  have "(\<lambda>s :: jsstring. s \<noteq> [] \<and> 10 < length s) = (\<lambda>f. 10 < length f)" by auto
  then show ?thesis
    by (cases m) (simp_all add: sentences_of_def split: option.splits del: insert_iff)
qed

text \<open>The title pattern finds something at the start of the text or nowhere.\<close>

lemma title_first_at_0:
  "first_labelled (value_at (\<lambda>c. c \<noteq> 10)) s [''Title'', ''Name'', '''']
     = labelled_at (value_at (\<lambda>c. c \<noteq> 10)) s [''Title'', ''Name'', ''''] 0"
proof (cases "labelled_at (value_at (\<lambda>c. c \<noteq> 10)) s [''Title'', ''Name'', ''''] 0")
  case (Some y)
  have u: "[0 ..< Suc (length s)] = 0 # [Suc 0 ..< Suc (length s)]" by (rule upt_conv_Cons) simp
  show ?thesis unfolding first_labelled_def u using Some by simp
next
  case None
  have "labelled_at (value_at (\<lambda>c. c \<noteq> 10)) s [''Title'', ''Name'', ''''] j = None" for j
  proof (rule ccontr)
    assume "labelled_at (value_at (\<lambda>c. c \<noteq> 10)) s [''Title'', ''Name'', ''''] j \<noteq> None"
    then obtain y where "labelled_at (value_at (\<lambda>c. c \<noteq> 10)) s [''Title'', ''Name'', ''''] j = Some y"
      by auto
    from first_some_SomeD[OF this[unfolded labelled_at_def]] obtain q where
      "value_at (\<lambda>c. c \<noteq> 10) s q = Some y" by blast
    then have "q < length s" "s ! q \<noteq> 10" by (auto simp: value_at_def split: if_splits)
    from title_re_matches_at_0[OF this] have "first_some Some (ms title_re s (0, None)) \<noteq> None"
      by (cases "ms title_re s (0, None)") simp_all
    then show False
      unfolding title_re_def labelled_first[of _ s "[''Title'', ''Name'', '''']" _ "value_at (\<lambda>c. c \<noteq> 10)",
          OF ms_title_labels value_first]
      using None by simp
  qed
  then show ?thesis unfolding first_labelled_def using None by (simp add: first_some_None_iff)
qed

section \<open>The claims about the extractor\<close>

lemmas eval_simps = re_defs str_def is_digit_def is_space_def canonicalize_def
  ms.simps regex_exec.simps matches_in_order.simps
  String_match_def capture_or_def sentences_of_def trim_def substring_def
  metric_of_def parseFloat_def digits_value_def capitalize_def toUpperCase1_def
  Let_def fl_numeral

lemmas search_simps = first_labelled_def labelled_at_def label_ends_def starts_after_def
  content_at_def value_at_def line_end_def run_def label_at_def

text \<open>
  Claim C8, as stated, fails. The text below holds a section labelled \<open>Methods:\<close>, yet the
  methods are empty: the content of a section may hold no \<open>#\<close> before the end of its
  line, so the pattern finds no match at all.
\<close>

theorem sections_hash_counterexample:
  "label_at hash_text 0 ''Methods:''
   \<and> String_match hash_text methods_re = None
   \<and> processInitialData no_case hash_text
       = Some \<lparr>title = hash_text, type = str ''Clinical Study'', metrics = [],
               methods = [], findings = []\<rparr>"
proof -
  have "regex_exec measurement_re hash_text 0 = None" "regex_exec percentage_re hash_text 0 = None"
    "regex_exec lab_value_re hash_text 0 = None"
    by (simp_all add: hash_text_def eval_simps)
  then have "extractMetrics no_case hash_text = Some []"
    by (simp add: extractMetrics_matches exec_none_no_matches)
  moreover have "String_match hash_text methods_re = None"
    "String_match hash_text findings_re = None" "String_match hash_text type_re = None"
    by (simp_all add: hash_text_def eval_simps)
  moreover have "capture_or (String_match hash_text title_re) (str ''Research Study'') = hash_text"
    by (simp add: hash_text_def eval_simps)
  moreover have "label_at hash_text 0 ''Methods:''"
    by (simp add: hash_text_def label_at_def eval_simps)
  ultimately show ?thesis
    by (simp add: processInitialData_def capture_or_def sentences_of_def)
qed

text \<open>
  Claim C8, amended: for every input string the methods (respectively the findings) are
  found as follows. The positions of the text are gone through from the left. At a
  position, those of the labels \<open>Methods\<close>, \<open>Method\<close>, \<open>Protocol\<close> (respectively
  \<open>Results\<close>, \<open>Result\<close>, \<open>Findings\<close>, \<open>Finding\<close>), in any letter case, that stand there
  are tried in this order. After the label a colon, if one follows, is skipped, and if
  that leads to nothing it is not; then all the white space that follows, line breaks
  included, is skipped, and if that leads to nothing all but its last code unit, and so on
  down to none of it. The content of the section starts at the first start so reached that
  is not the end of the text and from which no \<open>#\<close> stands before the end of the line
  that the code unit after the start lies on; it runs up to the end of that line. The list
  is the content split at every \<open>.\<close> and \<open>;\<close>, every piece trimmed, exactly the pieces
  longer than 10 code units kept, in their order; it is empty when no position gives a
  content.
\<close>

theorem sections_split_into_sentences:
  "\<exists>r. processInitialData uc text = Some r
     \<and> methods r =
         (case first_labelled content_at text [''Methods'', ''Method'', ''Protocol''] of
            None \<Rightarrow> []
          | Some (a, b) \<Rightarrow>
              filter (\<lambda>f. 10 < length f)
                (map trim (split_on (\<lambda>c. c \<in> {46, 59}) (substring text a b))))
     \<and> findings r =
         (case first_labelled content_at text [''Results'', ''Result'', ''Findings'', ''Finding''] of
            None \<Rightarrow> []
          | Some (a, b) \<Rightarrow>
              filter (\<lambda>f. 10 < length f)
                (map trim (split_on (\<lambda>c. c \<in> {46, 59}) (substring text a b))))"
proof -
  obtain mets where e: "extractMetrics uc text = Some mets"
    by (simp add: extractMetrics_matches)
  define r where "r = \<lparr>title = capture_or (String_match text title_re) (str ''Research Study''),
      type = capture_or (String_match text type_re) (str ''Clinical Study''),
      metrics = mets,
      methods = sentences_of (String_match text methods_re),
      findings = sentences_of (String_match text findings_re)\<rparr>"
  have p: "processInitialData uc text = Some r"
    unfolding processInitialData_def Let_def e r_def by simp
  have m: "methods r =
         (case first_labelled content_at text [''Methods'', ''Method'', ''Protocol''] of
            None \<Rightarrow> []
          | Some (a, b) \<Rightarrow>
              filter (\<lambda>f. 10 < length f)
                (map trim (split_on (\<lambda>c. c \<in> {46, 59}) (substring text a b))))"
    unfolding r_def by (simp add: sentences_of_bind methods_group1 split: option.splits del: insert_iff)
  have f: "findings r =
         (case first_labelled content_at text [''Results'', ''Result'', ''Findings'', ''Finding''] of
            None \<Rightarrow> []
          | Some (a, b) \<Rightarrow>
              filter (\<lambda>f. 10 < length f)
                (map trim (split_on (\<lambda>c. c \<in> {46, 59}) (substring text a b))))"
    unfolding r_def by (simp add: sentences_of_bind findings_group1 split: option.splits del: insert_iff)
  from p m f show ?thesis by blast
qed

text \<open>
  Claim C9, as stated, fails, for the type and for the title. The one line of the first
  text below starts with neither label and holds no colon, yet the type is not the default:
  the pattern finds \<open>design\<close> inside \<open>designed\<close> and takes what follows it. And the title
  is not a line of the text, with or without its label: at the start of a text the label
  \<open>Title:\<close> is left out of the title, but when the same line follows an empty line, and so
  is still the first line that holds anything, the title keeps the label.
\<close>

theorem type_label_counterexample:
  "\<not> label_at designed_text 0 ''study type:'' \<and> \<not> label_at designed_text 0 ''design:''
   \<and> 58 \<notin> set designed_text \<and> 10 \<notin> set designed_text
   \<and> processInitialData no_case designed_text
       = Some \<lparr>title = designed_text, type = str ''ed it'', metrics = [],
               methods = [], findings = []\<rparr>
   \<and> processInitialData no_case labelled_title_text
       = Some \<lparr>title = str ''Aspirin trial'', type = str ''Clinical Study'', metrics = [],
               methods = [], findings = []\<rparr>
   \<and> processInitialData no_case late_title_text
       = Some \<lparr>title = str ''Title: Aspirin trial'', type = str ''Clinical Study'', metrics = [],
               methods = [], findings = []\<rparr>"
proof -
  have "regex_exec measurement_re designed_text 0 = None"
    "regex_exec percentage_re designed_text 0 = None"
    "regex_exec lab_value_re designed_text 0 = None"
    by (simp_all add: designed_text_def eval_simps)
  then have "extractMetrics no_case designed_text = Some []"
    by (simp add: extractMetrics_matches exec_none_no_matches)
  moreover have "String_match designed_text methods_re = None"
    "String_match designed_text findings_re = None"
    by (simp_all add: designed_text_def eval_simps)
  moreover have
    "capture_or (String_match designed_text title_re) (str ''Research Study'') = designed_text"
    "capture_or (String_match designed_text type_re) (str ''Clinical Study'') = str ''ed it''"
    by (simp_all add: designed_text_def eval_simps)
  moreover have "\<not> label_at designed_text 0 ''study type:''"
    "\<not> label_at designed_text 0 ''design:''" "58 \<notin> set designed_text"
    "10 \<notin> set designed_text"
    by (simp_all add: designed_text_def label_at_def eval_simps)
  ultimately have d: "\<not> label_at designed_text 0 ''study type:''
   \<and> \<not> label_at designed_text 0 ''design:''
   \<and> 58 \<notin> set designed_text \<and> 10 \<notin> set designed_text
   \<and> processInitialData no_case designed_text
       = Some \<lparr>title = designed_text, type = str ''ed it'', metrics = [],
               methods = [], findings = []\<rparr>"
    by (simp add: processInitialData_def sentences_of_def)
  have "regex_exec measurement_re labelled_title_text 0 = None"
    "regex_exec percentage_re labelled_title_text 0 = None"
    "regex_exec lab_value_re labelled_title_text 0 = None"
    by (simp_all add: labelled_title_text_def eval_simps)
  then have "extractMetrics no_case labelled_title_text = Some []"
    by (simp add: extractMetrics_matches exec_none_no_matches)
  moreover have "String_match labelled_title_text methods_re = None"
    "String_match labelled_title_text findings_re = None"
    "String_match labelled_title_text type_re = None"
    by (simp_all add: labelled_title_text_def eval_simps)
  moreover have
    "capture_or (String_match labelled_title_text title_re) (str ''Research Study'')
       = str ''Aspirin trial''"
    by (simp add: labelled_title_text_def eval_simps)
  ultimately have l: "processInitialData no_case labelled_title_text
       = Some \<lparr>title = str ''Aspirin trial'', type = str ''Clinical Study'', metrics = [],
               methods = [], findings = []\<rparr>"
    by (simp add: processInitialData_def capture_or_def sentences_of_def)
  have "regex_exec measurement_re late_title_text 0 = None"
    "regex_exec percentage_re late_title_text 0 = None"
    "regex_exec lab_value_re late_title_text 0 = None"
    by (simp_all add: late_title_text_def eval_simps)
  then have "extractMetrics no_case late_title_text = Some []"
    by (simp add: extractMetrics_matches exec_none_no_matches)
  moreover have "String_match late_title_text methods_re = None"
    "String_match late_title_text findings_re = None"
    "String_match late_title_text type_re = None"
    by (simp_all add: late_title_text_def eval_simps)
  moreover have
    "capture_or (String_match late_title_text title_re) (str ''Research Study'')
       = str ''Title: Aspirin trial''"
    by (simp add: late_title_text_def eval_simps)
  ultimately have t: "processInitialData no_case late_title_text
       = Some \<lparr>title = str ''Title: Aspirin trial'', type = str ''Clinical Study'', metrics = [],
               methods = [], findings = []\<rparr>"
    by (simp add: processInitialData_def capture_or_def sentences_of_def)
  from d l t show ?thesis by blast
qed

text \<open>
  Claim C9, amended: for every input string the title is read at the start of the text. Of
  \<open>Title\<close>, \<open>Name\<close> (in any letter case) and no label at all, those that stand at the
  start are tried in this order; after the label a colon, if one follows, is skipped, and
  if that leads to nothing it is not; then all the white space that follows, line breaks
  included, is skipped, and if that leads to nothing all but its last code unit, and so on
  down to none of it. The title is the longest run of code units other than a line break
  that starts at the first start so reached where such a code unit stands, trimmed; it is
  the literal \<open>Research Study\<close> when no start is reached or the run trims to nothing. The
  type is read in the same way at the first position of the text, from the left and
  anywhere in a line, at which \<open>study type\<close> or \<open>design\<close> (in any letter case, tried in
  this order) stands and leads to a start where a code unit other than a line break, a dot
  or a comma stands: it is the longest run of such code units from that start, trimmed. It
  is the literal \<open>Clinical Study\<close> when there is no such position or the run trims to
  nothing.
\<close>

theorem title_and_type:
  "\<exists>r. processInitialData uc text = Some r
     \<and> title r =
         (case labelled_at (value_at (\<lambda>c. c \<noteq> 10)) text [''Title'', ''Name'', ''''] 0 of
            None \<Rightarrow> str ''Research Study''
          | Some (a, b) \<Rightarrow>
              if trim (substring text a b) = [] then str ''Research Study''
              else trim (substring text a b))
     \<and> type r =
         (case first_labelled (value_at (\<lambda>c. c \<noteq> 10 \<and> c \<noteq> 46 \<and> c \<noteq> 44)) text
                 [''study type'', ''design''] of
            None \<Rightarrow> str ''Clinical Study''
          | Some (a, b) \<Rightarrow>
              if trim (substring text a b) = [] then str ''Clinical Study''
              else trim (substring text a b))"
proof -
  obtain mets where e: "extractMetrics uc text = Some mets"
    by (simp add: extractMetrics_matches)
  define r where "r = \<lparr>title = capture_or (String_match text title_re) (str ''Research Study''),
      type = capture_or (String_match text type_re) (str ''Clinical Study''),
      metrics = mets,
      methods = sentences_of (String_match text methods_re),
      findings = sentences_of (String_match text findings_re)\<rparr>"
  have p: "processInitialData uc text = Some r"
    unfolding processInitialData_def Let_def e r_def by simp
  have t: "title r =
         (case labelled_at (value_at (\<lambda>c. c \<noteq> 10)) text [''Title'', ''Name'', ''''] 0 of
            None \<Rightarrow> str ''Research Study''
          | Some (a, b) \<Rightarrow>
              if trim (substring text a b) = [] then str ''Research Study''
              else trim (substring text a b))"
    unfolding r_def
    by (simp add: capture_or_bind title_group1 title_first_at_0 split: option.splits)
  have y: "type r =
         (case first_labelled (value_at (\<lambda>c. c \<noteq> 10 \<and> c \<noteq> 46 \<and> c \<noteq> 44)) text
                 [''study type'', ''design''] of
            None \<Rightarrow> str ''Clinical Study''
          | Some (a, b) \<Rightarrow>
              if trim (substring text a b) = [] then str ''Clinical Study''
              else trim (substring text a b))"
    unfolding r_def
    by (simp add: capture_or_bind type_group1 split: option.splits)
  from p t y show ?thesis by blast
qed

text \<open>
  Claim C10: when the window of up to 50 code units before a match holds nothing but white
  space after its last \<open>.\<close>, \<open>,\<close>, \<open>;\<close> or \<open>:\<close>, the label of the metric is the
  capitalized name of the pattern: \<open>Measurement\<close>, \<open>Percentage\<close> or \<open>Lab_value\<close>.
\<close>

theorem metric_label_fallback:
  assumes "(regex, ty) \<in> set patterns"
      and "trim (last (split_on (\<lambda>c. c \<in> {46, 44, 59, 58})
                     (substring text (index m - 50) (index m)))) = []"
  shows "label (metric_of uc text ty m) =
          (if ty = str ''measurement'' then str ''Measurement''
           else if ty = str ''percentage'' then str ''Percentage''
           else str ''Lab_value'')"
proof -
  from assms(1) have "ty = str ''measurement'' \<or> ty = str ''percentage'' \<or> ty = str ''lab_value''"
    by (auto simp: patterns_def)
  then show ?thesis
    unfolding metric_of_label_fallback[OF assms(2)]
    by (auto simp: capitalize_types)
qed

text \<open>
  Claim C7: the metrics are the metrics of the matches of the measurement pattern, then
  those of the percentage pattern, then those of the lab-value pattern, each group from left
  to right in the text (a match starts at or after the end of the one before it). Nothing
  is removed: a number that two patterns match gives two entries.
\<close>

theorem extractMetrics_concatenates:
  "extractMetrics uc text = Some
     (map (metric_of uc text (str ''measurement'')) (matches_in_order measurement_re text 0)
      @ map (metric_of uc text (str ''percentage'')) (matches_in_order percentage_re text 0)
      @ map (metric_of uc text (str ''lab_value'')) (matches_in_order lab_value_re text 0))
   \<and> sorted_wrt (\<lambda>a b. lastIndex a \<le> index b) (matches_in_order measurement_re text 0)
   \<and> sorted_wrt (\<lambda>a b. lastIndex a \<le> index b) (matches_in_order percentage_re text 0)
   \<and> sorted_wrt (\<lambda>a b. lastIndex a \<le> index b) (matches_in_order lab_value_re text 0)"
  using extractMetrics_matches[of uc "text"] matches_in_order_sorted[OF consuming_patterns(1), of "text" 0]
    matches_in_order_sorted[OF consuming_patterns(2), of "text" 0]
    matches_in_order_sorted[OF consuming_patterns(3), of "text" 0]
  by blast

lemma example_metrics:
  "extractMetrics uc example_text
     = Some [\<lparr>label = str ''Patients showed'', value = Fin 45, unit = str ''%''\<rparr>]"
proof -
  have "regex_exec measurement_re example_text 0 = None"
    by (simp add: example_text_def eval_simps)
  moreover have "regex_exec lab_value_re example_text 0 = None"
    by (simp add: example_text_def eval_simps)
  moreover have "matches_in_order percentage_re example_text 0
      = [\<lparr>index = 25, whole = str ''45%'', group1 = Some (str ''45''), lastIndex = 28\<rparr>]"
    by (simp add: example_text_def eval_simps)
  moreover have "metric_of uc example_text (str ''percentage'')
        \<lparr>index = 25, whole = str ''45%'', group1 = Some (str ''45''), lastIndex = 28\<rparr>
      = \<lparr>label = str ''Patients showed'', value = Fin 45, unit = str ''%''\<rparr>"
    by (simp add: example_text_def eval_simps)
  ultimately show ?thesis
    by (simp add: extractMetrics_matches exec_none_no_matches)
qed

lemma example_findings:
  "sentences_of (String_match example_text findings_re)
     = [str ''Patients showed 45% improvement'',
        str ''Methods: Randomized control trial was used'']"
  by (simp add: example_text_def eval_simps)

text \<open>
  Claim C6: on the example text of the specification, the findings contain the trimmed
  fragment \<open>Patients showed 45% improvement\<close>, and the metrics are exactly one metric, with
  value 45 and unit \<open>%\<close>.
\<close>

theorem processInitialData_example:
  "\<exists>r. processInitialData uc
          (str ''Results: Patients showed 45% improvement. Methods: Randomized control trial was used.'')
        = Some r
      \<and> str ''Patients showed 45% improvement'' \<in> set (findings r)
      \<and> (\<exists>l. metrics r = [\<lparr>label = l, value = Fin 45, unit = str ''%''\<rparr>])"
  unfolding processInitialData_def Let_def example_text_def[symmetric]
    example_metrics example_findings
  by simp

text \<open>The same example, with a concrete table for upper case.\<close>

theorem processInitialData_example_witness:
  "\<exists>r. processInitialData no_case
          (str ''Results: Patients showed 45% improvement. Methods: Randomized control trial was used.'')
        = Some r
      \<and> length (metrics r) = 1 \<and> map value (metrics r) = [Fin 45]"
  using processInitialData_example[of no_case] by auto

text \<open>The empty text: no pattern matches, every field holds its default.\<close>

theorem processInitialData_total_witness:
  "String_match [] title_re = None \<and> String_match [] type_re = None
   \<and> String_match [] methods_re = None \<and> String_match [] findings_re = None
   \<and> regex_exec measurement_re [] 0 = None \<and> regex_exec percentage_re [] 0 = None
   \<and> regex_exec lab_value_re [] 0 = None
   \<and> processInitialData no_case []
       = Some \<lparr>title = str ''Research Study'', type = str ''Clinical Study'', metrics = [],
               methods = [], findings = []\<rparr>"
proof -
  have h: "String_match [] title_re = None" "String_match [] type_re = None"
    "String_match [] methods_re = None" "String_match [] findings_re = None"
    "regex_exec measurement_re [] 0 = None" "regex_exec percentage_re [] 0 = None"
    "regex_exec lab_value_re [] 0 = None"
    by (simp_all add: eval_simps)
  then have "\<forall>p \<in> set patterns. regex_exec (fst p) [] 0 = None"
    by (simp add: patterns_def)
  with processInitialData_total[of no_case "[]"] obtain r where
    r: "processInitialData no_case [] = Some r"
    "title r = str ''Research Study''" "type r = str ''Clinical Study''"
    "methods r = []" "findings r = []" "metrics r = []"
    using h by blast
  have "r = \<lparr>title = str ''Research Study'', type = str ''Clinical Study'', metrics = [],
               methods = [], findings = []\<rparr>"
    using r(2-6) by (cases r) simp
  with r(1) h show ?thesis by simp
qed

text \<open>
  The number of \<open>5 mg/dL\<close> is matched by the measurement pattern (\<open>5 mg\<close>) and by the
  lab-value pattern: two entries, the measurement first.
\<close>

theorem extractMetrics_concatenates_witness:
  "extractMetrics no_case (str ''5 mg/dL'')
     = Some [\<lparr>label = str ''Measurement'', value = Fin 5, unit = str ''mg''\<rparr>,
             \<lparr>label = str ''Lab_value'', value = Fin 5, unit = str ''mg/dL''\<rparr>]"
proof -
  have "matches_in_order measurement_re (str ''5 mg/dL'') 0
      = [\<lparr>index = 0, whole = str ''5 mg'', group1 = Some (str ''5''), lastIndex = 4\<rparr>]"
    by (simp add: eval_simps)
  moreover have "matches_in_order percentage_re (str ''5 mg/dL'') 0 = []"
    by (simp add: eval_simps)
  moreover have "matches_in_order lab_value_re (str ''5 mg/dL'') 0
      = [\<lparr>index = 0, whole = str ''5 mg/dL'', group1 = Some (str ''5''), lastIndex = 7\<rparr>]"
    by (simp add: eval_simps)
  ultimately show ?thesis
    using extractMetrics_concatenates[of no_case "str ''5 mg/dL''"]
    by (simp add: eval_simps)
qed

text \<open>
  Both section patterns find their content in one line of text; the piece \<open>ok\<close> is
  dropped, being too short. And a text whose one line is a methods section.
\<close>

theorem sections_split_into_sentences_witness:
  "first_labelled content_at sections_text [''Methods'', ''Method'', ''Protocol''] = Some (10, 67)
   \<and> first_labelled content_at sections_text [''Results'', ''Result'', ''Findings'', ''Finding'']
       = Some (47, 67)
   \<and> (\<exists>r. processInitialData no_case sections_text = Some r
        \<and> methods r = [str ''Blood was drawn daily'', str ''Findings: Glucose fell sharply'']
        \<and> findings r = [str ''Glucose fell sharply''])
   \<and> first_labelled content_at methods_text [''Methods'', ''Method'', ''Protocol''] = Some (9, 33)
   \<and> (\<exists>r. processInitialData no_case methods_text = Some r
        \<and> methods r = [str ''Randomized control trial''] \<and> findings r = [])"
proof -
  have m: "first_labelled content_at sections_text [''Methods'', ''Method'', ''Protocol'']
      = Some (10, 67)"
    by (simp add: sections_text_def search_simps eval_simps)
  have f: "first_labelled content_at sections_text [''Results'', ''Result'', ''Findings'', ''Finding'']
      = Some (47, 67)"
    by (simp add: sections_text_def search_simps eval_simps)
  from sections_split_into_sentences[of no_case sections_text] obtain r where
    r: "processInitialData no_case sections_text = Some r"
    and a: "methods r = filter (\<lambda>f. 10 < length f)
                (map trim (split_on (\<lambda>c. c \<in> {46, 59}) (substring sections_text 10 67)))"
    and b: "findings r = filter (\<lambda>f. 10 < length f)
                (map trim (split_on (\<lambda>c. c \<in> {46, 59}) (substring sections_text 47 67)))"
    unfolding m f by auto
  from a have 1: "methods r = [str ''Blood was drawn daily'', str ''Findings: Glucose fell sharply'']"
    by (simp add: sections_text_def eval_simps)
  from b have 2: "findings r = [str ''Glucose fell sharply'']"
    by (simp add: sections_text_def eval_simps)
  have m': "first_labelled content_at methods_text [''Methods'', ''Method'', ''Protocol'']
      = Some (9, 33)"
    by (simp add: methods_text_def search_simps eval_simps)
  have f': "first_labelled content_at methods_text [''Results'', ''Result'', ''Findings'', ''Finding'']
      = None"
    by (simp add: methods_text_def search_simps eval_simps)
  from sections_split_into_sentences[of no_case methods_text] obtain r' where
    r': "processInitialData no_case methods_text = Some r'"
    and a': "methods r' = filter (\<lambda>f. 10 < length f)
                (map trim (split_on (\<lambda>c. c \<in> {46, 59}) (substring methods_text 9 33)))"
    and b': "findings r' = []"
    unfolding m' f' by auto
  from a' have 3: "methods r' = [str ''Randomized control trial'']"
    by (simp add: methods_text_def eval_simps)
  show ?thesis using m f r 1 2 m' r' 3 b' by blast
qed

text \<open>A title line and a design line; and a text whose one line gives the study type.\<close>

theorem title_and_type_witness:
  "labelled_at (value_at (\<lambda>c. c \<noteq> 10)) header_text [''Title'', ''Name'', ''''] 0 = Some (7, 20)
   \<and> first_labelled (value_at (\<lambda>c. c \<noteq> 10 \<and> c \<noteq> 46 \<and> c \<noteq> 44)) header_text
         [''study type'', ''design''] = Some (29, 39)
   \<and> (\<exists>r. processInitialData no_case header_text = Some r
        \<and> title r = str ''Aspirin trial'' \<and> type r = str ''randomized'')
   \<and> first_labelled (value_at (\<lambda>c. c \<noteq> 10 \<and> c \<noteq> 46 \<and> c \<noteq> 44)) study_type_text
         [''study type'', ''design''] = Some (12, 15)
   \<and> (\<exists>r. processInitialData no_case study_type_text = Some r
        \<and> title r = str ''Study type: RCT'' \<and> type r = str ''RCT'')"
proof -
  have t: "labelled_at (value_at (\<lambda>c. c \<noteq> 10)) header_text [''Title'', ''Name'', ''''] 0
      = Some (7, 20)"
    by (simp add: header_text_def search_simps eval_simps)
  have y: "first_labelled (value_at (\<lambda>c. c \<noteq> 10 \<and> c \<noteq> 46 \<and> c \<noteq> 44)) header_text
         [''study type'', ''design''] = Some (29, 39)"
    by (simp add: header_text_def search_simps eval_simps)
  from title_and_type[of no_case header_text] obtain r where
    r: "processInitialData no_case header_text = Some r"
    and a: "title r = (if trim (substring header_text 7 20) = [] then str ''Research Study''
                       else trim (substring header_text 7 20))"
    and b: "type r = (if trim (substring header_text 29 39) = [] then str ''Clinical Study''
                      else trim (substring header_text 29 39))"
    unfolding t y by auto
  from a have 1: "title r = str ''Aspirin trial''" by (simp add: header_text_def eval_simps)
  from b have 2: "type r = str ''randomized''" by (simp add: header_text_def eval_simps)
  have t': "labelled_at (value_at (\<lambda>c. c \<noteq> 10)) study_type_text [''Title'', ''Name'', ''''] 0
      = Some (0, 15)"
    by (simp add: study_type_text_def search_simps eval_simps)
  have y': "first_labelled (value_at (\<lambda>c. c \<noteq> 10 \<and> c \<noteq> 46 \<and> c \<noteq> 44)) study_type_text
         [''study type'', ''design''] = Some (12, 15)"
    by (simp add: study_type_text_def search_simps eval_simps)
  from title_and_type[of no_case study_type_text] obtain r' where
    r': "processInitialData no_case study_type_text = Some r'"
    and a': "title r' = (if trim (substring study_type_text 0 15) = [] then str ''Research Study''
                       else trim (substring study_type_text 0 15))"
    and b': "type r' = (if trim (substring study_type_text 12 15) = [] then str ''Clinical Study''
                      else trim (substring study_type_text 12 15))"
    unfolding t' y' by auto
  from a' have 3: "title r' = str ''Study type: RCT''" by (simp add: study_type_text_def eval_simps)
  from b' have 4: "type r' = str ''RCT''" by (simp add: study_type_text_def eval_simps)
  show ?thesis using t y r 1 2 y' r' 3 4 by blast
qed

text \<open>A match at the start of the text: the window is empty.\<close>

theorem metric_label_fallback_witness:
  "(percentage_re, str ''percentage'') \<in> set patterns
   \<and> regex_exec percentage_re (str ''45%'') 0
       = Some \<lparr>index = 0, whole = str ''45%'', group1 = Some (str ''45''), lastIndex = 3\<rparr>
   \<and> trim (last (split_on (\<lambda>c. c \<in> {46, 44, 59, 58}) (substring (str ''45%'') (0 - 50) 0))) = []
   \<and> label (metric_of no_case (str ''45%'') (str ''percentage'')
        \<lparr>index = 0, whole = str ''45%'', group1 = Some (str ''45''), lastIndex = 3\<rparr>)
       = str ''Percentage''"
proof -
  have p: "(percentage_re, str ''percentage'') \<in> set patterns" by (simp add: patterns_def)
  have e: "regex_exec percentage_re (str ''45%'') 0
       = Some \<lparr>index = 0, whole = str ''45%'', group1 = Some (str ''45''), lastIndex = 3\<rparr>"
    by (simp add: eval_simps)
  have w: "trim (last (split_on (\<lambda>c. c \<in> {46, 44, 59, 58})
      (substring (str ''45%'')
         (index \<lparr>index = 0, whole = str ''45%'', group1 = Some (str ''45''), lastIndex = 3\<rparr> - 50)
         (index \<lparr>index = 0, whole = str ''45%'', group1 = Some (str ''45''), lastIndex = 3\<rparr>)))) = []"
    by (simp add: eval_simps)
  from metric_label_fallback[OF p w, of no_case] p e w show ?thesis
    by (simp add: str_def)
qed

end
